theory Spec2Isabelle
  imports Complex_Main "HOL-Library.AList" "HOL-Library.Sublist"
begin

section \<open>Values, columns, episodes\<close>

text \<open>
  The functions of \<^verbatim>\<open>tools.py\<close> store NumPy values. A value is modelled by its element
  type and its entries (flattened, as exact reals): the rounding and the wrap-around of
  \<^verbatim>\<open>astype\<close> are not modelled, only the element type that \<^verbatim>\<open>convert\<close> selects. A
  Python scalar is the value NumPy makes of it (\<^verbatim>\<open>np.array(value)\<close>).
\<close>

datatype error =
  KeyError | IndexError | AttributeError | NotImplementedError | StopIteration
  | ValueError | AssertionError | RuntimeError | UnboundLocalError | TypeError

datatype dtype = Floating nat | SignedInteger nat | UInt8 | Bool | OtherDtype

datatype ndarray = NDArray (dtype: dtype) (items: "real list")

text \<open>
  \<^verbatim>\<open>convert(value, precision=32)\<close>: floating and signed integer values get the width
  \<^verbatim>\<open>precision\<close> (a lookup in a dict with the keys 16, 32, 64), \<^verbatim>\<open>uint8\<close> and
  \<^verbatim>\<open>bool\<close> are kept, every other element type raises.
\<close>

definition convert :: "ndarray \<Rightarrow> nat \<Rightarrow> error + ndarray" where
  "convert v precision =
     (case dtype v of
        Floating _ \<Rightarrow>
          (if precision \<in> {16, 32, 64} then Inr (NDArray (Floating precision) (items v))
           else Inl KeyError)
      | SignedInteger _ \<Rightarrow>
          (if precision \<in> {16, 32, 64} then Inr (NDArray (SignedInteger precision) (items v))
           else Inl KeyError)
      | UInt8 \<Rightarrow> Inr (NDArray UInt8 (items v))
      | Bool \<Rightarrow> Inr (NDArray Bool (items v))
      | OtherDtype \<Rightarrow> Inl NotImplementedError)"

text \<open>
  \<^verbatim>\<open>0 * val\<close>: every entry becomes zero; NumPy keeps the element type, except that the
  product of an integer and a boolean is a (64-bit) integer.
\<close>

definition zero_times :: "ndarray \<Rightarrow> ndarray" where
  "zero_times v =
     NDArray (if dtype v = Bool then SignedInteger 64 else dtype v) (map (\<lambda>_. 0) (items v))"

text \<open>
  A field of an episode is a sequence along the time axis. \<^verbatim>\<open>add_to_cache\<close> stores a
  Python list of values; \<^verbatim>\<open>load_episodes\<close> stores the NumPy array read from disk. The
  two differ in \<^verbatim>\<open>append\<close> (a list has it, an array has not) and in slicing (a slice
  of a list is a new list, a slice of an array is a view of the same memory).
\<close>

datatype column = PyList (rows: "ndarray list") | NdArray (rows: "ndarray list")

definition clen :: "column \<Rightarrow> nat" where
  "clen c = length (rows c)"

text \<open>
  A Python dict keeps its keys in insertion order: an association list with distinct keys,
  where \<^const>\<open>AList.update\<close> overwrites in place or appends at the end, as an assignment
  \<^verbatim>\<open>d[k] = v\<close> does.
\<close>

type_synonym episode = "(string \<times> column) list"

type_synonym 'k cache = "('k \<times> episode) list"

type_synonym transition = "(string \<times> ndarray) list"

section \<open>The episode cache\<close>

subsection \<open>\<^verbatim>\<open>add_to_cache\<close>\<close>

text \<open>The loop of the first branch: \<^verbatim>\<open>cache[id][key] = [convert(val)]\<close>.\<close>

fun seed_fields :: "transition \<Rightarrow> episode \<Rightarrow> error + episode" where
  "seed_fields [] ep = Inr ep"
| "seed_fields ((key, val) # rest) ep =
     (case convert val 32 of
        Inl e \<Rightarrow> Inl e
      | Inr c \<Rightarrow> seed_fields rest (AList.update key (PyList [c]) ep))"

text \<open>
  The loop of the second branch. A key that the episode does not have yet gets the list
  \<^verbatim>\<open>[convert(0 * val)]\<close> and then the value; a key that it has gets the value
  appended. An array has no \<^verbatim>\<open>append\<close>: the attribute lookup raises before the
  argument is evaluated.
\<close>

fun append_fields :: "transition \<Rightarrow> episode \<Rightarrow> error + episode" where
  "append_fields [] ep = Inr ep"
| "append_fields ((key, val) # rest) ep =
     (case map_of ep key of
        None \<Rightarrow>
          (case convert (zero_times val) 32 of
             Inl e \<Rightarrow> Inl e
           | Inr z \<Rightarrow>
               (case convert val 32 of
                  Inl e \<Rightarrow> Inl e
                | Inr c \<Rightarrow> append_fields rest (AList.update key (PyList [z, c]) ep)))
      | Some (NdArray _) \<Rightarrow> Inl AttributeError
      | Some (PyList xs) \<Rightarrow>
          (case convert val 32 of
             Inl e \<Rightarrow> Inl e
           | Inr c \<Rightarrow> append_fields rest (AList.update key (PyList (xs @ [c])) ep)))"

text \<open>
  \<^verbatim>\<open>add_to_cache(cache, id, transition)\<close>. The cache is mutated in place; the model
  returns the new cache. When a conversion raises, Python leaves the cache partly updated;
  the model returns the error alone.
\<close>

definition add_to_cache :: "'k cache \<Rightarrow> 'k \<Rightarrow> transition \<Rightarrow> error + 'k cache" where
  "add_to_cache cache eid transition =
     (case map_of cache eid of
        None \<Rightarrow>
          (case seed_fields transition [] of
             Inl e \<Rightarrow> Inl e
           | Inr ep \<Rightarrow> Inr (AList.update eid ep cache))
      | Some ep \<Rightarrow>
          (case append_fields transition ep of
             Inl e \<Rightarrow> Inl e
           | Inr ep' \<Rightarrow> Inr (AList.update eid ep' cache)))"

text \<open>A sequence of calls on one episode id, stopping at the first exception.\<close>

fun add_all :: "'k cache \<Rightarrow> 'k \<Rightarrow> transition list \<Rightarrow> error + 'k cache" where
  "add_all cache eid [] = Inr cache"
| "add_all cache eid (t # ts) =
     (case add_to_cache cache eid t of
        Inl e \<Rightarrow> Inl e
      | Inr cache' \<Rightarrow> add_all cache' eid ts)"

subsection \<open>\<^verbatim>\<open>erase_over_episodes\<close>\<close>

text \<open>
  \<^verbatim>\<open>dataset_size\<close> is \<^verbatim>\<open>None\<close> or an integer; \<^verbatim>\<open>not dataset_size\<close> holds for
  \<^verbatim>\<open>None\<close> and for 0.
\<close>

definition truthy :: "int option \<Rightarrow> bool" where
  "truthy dataset_size = (case dataset_size of None \<Rightarrow> False | Some n \<Rightarrow> n \<noteq> 0)"

text \<open>\<^verbatim>\<open>len(ep["reward"]) - 1\<close>, a \<^verbatim>\<open>KeyError\<close> when the episode has no reward.\<close>

definition transitions :: "episode \<Rightarrow> error + int" where
  "transitions ep =
     (case map_of ep ''reward'' of
        None \<Rightarrow> Inl KeyError
      | Some r \<Rightarrow> Inr (int (clen r) - 1))"

text \<open>
  The loop over the items, already sorted and reversed. The list of items is built before
  the loop starts, so that deleting from the cache does not disturb the iteration.
\<close>

fun erase_loop ::
  "int option \<Rightarrow> ('k \<times> episode) list \<Rightarrow> 'k cache \<Rightarrow> int \<Rightarrow> error + ('k cache \<times> int)" where
  "erase_loop dataset_size [] cache step_in_dataset = Inr (cache, step_in_dataset)"
| "erase_loop dataset_size ((key, ep) # rest) cache step_in_dataset =
     (case transitions ep of
        Inl e \<Rightarrow> Inl e
      | Inr n \<Rightarrow>
          (if \<not> truthy dataset_size \<or> step_in_dataset + n \<le> the dataset_size
           then erase_loop dataset_size rest cache (step_in_dataset + n)
           else erase_loop dataset_size rest (AList.delete key cache) step_in_dataset))"

definition erase_over_episodes ::
  "('k::linorder) cache \<Rightarrow> int option \<Rightarrow> error + ('k cache \<times> int)" where
  "erase_over_episodes cache dataset_size =
     erase_loop dataset_size (rev (sort_key fst cache)) cache 0"

subsection \<open>Measures of a cache\<close>

text \<open>
  The transition count of an episode as \<^verbatim>\<open>erase_over_episodes\<close> counts it, the total
  over a cache, and the total over the episodes of a cache with an identifier greater than
  \<open>k\<close> (the episodes that the reversed sorted iteration visits before \<open>k\<close>).
\<close>

definition steps_of :: "episode \<Rightarrow> int" where
  "steps_of ep = (case transitions ep of Inl _ \<Rightarrow> 0 | Inr n \<Rightarrow> n)"

definition total_steps :: "'k cache \<Rightarrow> int" where
  "total_steps cache = sum_list (map (\<lambda>x. steps_of (snd x)) cache)"

definition newer_steps :: "('k::linorder) cache \<Rightarrow> 'k \<Rightarrow> int" where
  "newer_steps cache k = total_steps (filter (\<lambda>x. k < fst x) cache)"

text \<open>A cache of three episodes with 1, 5 and 3 transitions, the third being the newest.\<close>

definition r0 :: ndarray where
  "r0 = NDArray (Floating 32) [0]"

definition cache3 :: "nat cache" where
  "cache3 = [(1, [(''reward'', PyList (replicate 2 r0))]),
             (2, [(''reward'', PyList (replicate 6 r0))]),
             (3, [(''reward'', PyList (replicate 4 r0))])]"

text \<open>
  Two transitions of a run: the reset transition has no action, every later one has it.
\<close>

definition v1 :: ndarray where
  "v1 = NDArray (Floating 64) [1]"

definition reset_t :: transition where
  "reset_t = [(''obs'', v1)]"

definition step_t :: transition where
  "step_t = [(''obs'', v1), (''action'', v1)]"

section \<open>The window sampler\<close>

subsection \<open>\<^verbatim>\<open>sample_episodes\<close>\<close>

text \<open>
  A window is a dict from field names to sequences, like an episode.
  \<^verbatim>\<open>len(next(iter(d.values())))\<close> is the length of the first field of a dict;
  \<^verbatim>\<open>next\<close> raises \<^verbatim>\<open>StopIteration\<close> on an empty dict.
\<close>

type_synonym window = "(string \<times> column) list"

definition first_len :: "episode \<Rightarrow> error + nat" where
  "first_len d = (case d of [] \<Rightarrow> Inl StopIteration | (k, c) # _ \<Rightarrow> Inr (clen c))"

text \<open>The list comprehension that builds \<^verbatim>\<open>p\<close>, raising at the first empty episode.\<close>

fun totals :: "episode list \<Rightarrow> error + nat list" where
  "totals [] = Inr []"
| "totals (ep # rest) =
     (case first_len ep of
        Inl e \<Rightarrow> Inl e
      | Inr n \<Rightarrow> (case totals rest of Inl e \<Rightarrow> Inl e | Inr ns \<Rightarrow> Inr (n # ns)))"

text \<open>\<^verbatim>\<open>p = p / np.sum(p)\<close>, in exact arithmetic.\<close>

definition probabilities :: "nat list \<Rightarrow> real list" where
  "probabilities ns = map (\<lambda>n. real n / real (sum_list ns)) ns"

text \<open>\<^verbatim>\<open>"log_" not in k\<close>\<close>

definition is_log :: "string \<Rightarrow> bool" where
  "is_log k = sublist ''log_'' k"

text \<open>
  \<^verbatim>\<open>v[i:j]\<close> for \<open>0 \<le> i\<close> and \<open>0 \<le> j\<close>. The slice of a list is a new list, the slice
  of an array is an array (a view of \<open>v\<close>).
\<close>

definition slice :: "column \<Rightarrow> nat \<Rightarrow> nat \<Rightarrow> column" where
  "slice v i j =
     (case v of
        PyList xs \<Rightarrow> PyList (take (j - i) (drop i xs))
      | NdArray xs \<Rightarrow> NdArray (take (j - i) (drop i xs)))"

text \<open>
  \<^verbatim>\<open>c[i] = True\<close> for \<open>0 \<le> i\<close>: an element of a list is replaced by \<^verbatim>\<open>True\<close>, a row of
  an array is filled with ones of the array's element type; an index out of range raises.
\<close>

definition py_True :: ndarray where
  "py_True = NDArray Bool [1]"

definition ones_like :: "ndarray \<Rightarrow> ndarray" where
  "ones_like v = NDArray (dtype v) (map (\<lambda>_. 1) (items v))"

definition set_true :: "column \<Rightarrow> nat \<Rightarrow> error + column" where
  "set_true c i =
     (if i < clen c
      then Inr (case c of
                  PyList xs \<Rightarrow> PyList (xs[i := py_True])
                | NdArray xs \<Rightarrow> NdArray (xs[i := ones_like (xs ! i)]))
      else Inl IndexError)"

definition is_true :: "ndarray \<Rightarrow> bool" where
  "is_true v = list_all (\<lambda>x. x = 1) (items v)"

text \<open>
  The first fragment of a window: the slice \<^verbatim>\<open>v[index : min(index + length, total)]\<close>
  of every field whose name does not contain \<^verbatim>\<open>log_\<close>, then
  \<^verbatim>\<open>ret["is_first"][0] = True\<close>. When the field of the episode is an array, the slice is
  a view, and the assignment writes the row \<open>index\<close> of the episode's own array: the
  function returns the episode as the assignment leaves it.
\<close>

definition write_through :: "episode \<Rightarrow> nat \<Rightarrow> episode" where
  "write_through episode index =
     (case map_of episode ''is_first'' of
        Some (NdArray xs) \<Rightarrow>
          AList.update ''is_first'' (NdArray (xs[index := ones_like (xs ! index)])) episode
      | _ \<Rightarrow> episode)"

definition first_fragment :: "nat \<Rightarrow> episode \<Rightarrow> nat \<Rightarrow> nat \<Rightarrow> error + (window \<times> episode)" where
  "first_fragment len episode total' index =
     (let ret = map (\<lambda>(k, v). (k, slice v index (min (index + len) total')))
                  (filter (\<lambda>(k, v). \<not> is_log k) episode)
      in case map_of ret ''is_first'' of
           None \<Rightarrow> Inr (ret, episode)
         | Some c \<Rightarrow>
             (case set_true c 0 of
                Inl e \<Rightarrow> Inl e
              | Inr c' \<Rightarrow> Inr (AList.update ''is_first'' c' ret, write_through episode index)))"

text \<open>
  \<^verbatim>\<open>np.append(a, b, axis=0)\<close> makes arrays of \<open>a\<close> and \<open>b\<close> and joins them along the
  time axis; it raises \<^verbatim>\<open>ValueError\<close> when the rows of the two do not have one shape
  (NumPy 1.24 and later also refuses to make an array of a list whose rows differ in
  shape). The model keeps the entries of a value and not its shape: it raises when two rows
  differ in their number of entries, and returns the joined rows otherwise. So the model
  returns, with the same rows, whenever the code does.
\<close>

definition same_rows :: "ndarray list \<Rightarrow> bool" where
  "same_rows xs =
     (case xs of [] \<Rightarrow> True | x # rest \<Rightarrow> list_all (\<lambda>y. length (items y) = length (items x)) rest)"

text \<open>
  A later fragment: \<^verbatim>\<open>np.append(ret[k], v[0 : min(possible, total)], axis=0)\<close> for
  every field of the drawn episode whose name does not contain \<^verbatim>\<open>log_\<close> (a
  \<^verbatim>\<open>KeyError\<close> when the window does not have the field), then
  \<^verbatim>\<open>ret["is_first"][size] = True\<close>. \<^verbatim>\<open>np.append\<close> returns a new array. The
  comprehension stops at the first field that raises.
\<close>

fun stitch_fields :: "window \<Rightarrow> nat \<Rightarrow> nat \<Rightarrow> episode \<Rightarrow> error + window" where
  "stitch_fields ret possible total' [] = Inr []"
| "stitch_fields ret possible total' ((k, v) # rest) =
     (if is_log k then stitch_fields ret possible total' rest
      else (case map_of ret k of
              None \<Rightarrow> Inl KeyError
            | Some r \<Rightarrow>
                if \<not> same_rows (rows r @ rows (slice v 0 (min (0 + possible) total')))
                then Inl ValueError
                else (case stitch_fields ret possible total' rest of
                        Inl e \<Rightarrow> Inl e
                      | Inr w \<Rightarrow>
                          Inr ((k, NdArray (rows r @ rows (slice v 0 (min (0 + possible) total')))) # w))))"

definition stitch_fragment :: "nat \<Rightarrow> window \<Rightarrow> nat \<Rightarrow> episode \<Rightarrow> nat \<Rightarrow> error + window" where
  "stitch_fragment len ret size0 episode total' =
     (let possible = len - size0
      in case stitch_fields ret possible total' episode of
           Inl e \<Rightarrow> Inl e
         | Inr ret' \<Rightarrow>
             (case map_of ret' ''is_first'' of
                None \<Rightarrow> Inr ret'
              | Some c \<Rightarrow>
                  (case set_true c size0 of
                     Inl e \<Rightarrow> Inl e
                   | Inr c' \<Rightarrow> Inr (AList.update ''is_first'' c' ret'))))"

text \<open>
  The random generator is modelled by the values it returns: one \<open>draw\<close> for each pass
  of the inner loop, with the index of the episode that \<^verbatim>\<open>np_random.choice\<close> returns and
  the value of \<^verbatim>\<open>np_random.randint(0, total - 1)\<close> (read only when the pass starts a
  window).
\<close>

datatype draw = Draw (choice: nat) (randint: nat)

text \<open>
  The state of the inner loop: \<^verbatim>\<open>ret\<close>, \<^verbatim>\<open>size\<close> (the field \<open>wsize\<close>) and the episodes (whose arrays a
  pass can write). \<open>fragments\<close> is a ghost field, which no computation reads: for each
  fragment of the window, the index of its episode and the value of \<^verbatim>\<open>size\<close> at which
  it was attached.
\<close>

record 'k sampling =
  ret :: "window option"
  wsize :: nat
  eps :: "'k cache"
  fragments :: "(nat \<times> nat) list"

text \<open>\<^verbatim>\<open>not ret\<close>: \<^verbatim>\<open>None\<close> or an empty dict.\<close>

definition not_ret :: "window option \<Rightarrow> bool" where
  "not_ret r = (case r of None \<Rightarrow> True | Some w \<Rightarrow> w = [])"

text \<open>One pass of the inner loop, for the draw \<open>d\<close>.\<close>

definition sample_step :: "nat \<Rightarrow> 'k sampling \<Rightarrow> draw \<Rightarrow> error + 'k sampling" where
  "sample_step len st d =
     (let key = fst (eps st ! choice d); episode = snd (eps st ! choice d)
      in case first_len episode of
           Inl e \<Rightarrow> Inl e
         | Inr n \<Rightarrow>
             if n < 2 then Inr st
             else if not_ret (ret st)
             then (case first_fragment len episode n (randint d) of
                     Inl e \<Rightarrow> Inl e
                   | Inr (w, episode') \<Rightarrow>
                       (case first_len w of
                          Inl e \<Rightarrow> Inl e
                        | Inr s \<Rightarrow>
                            Inr \<lparr>ret = Some w, wsize = s,
                                 eps = (eps st)[choice d := (key, episode')],
                                 fragments = fragments st @ [(choice d, wsize st)]\<rparr>))
             else (case stitch_fragment len (the (ret st)) (wsize st) episode n of
                     Inl e \<Rightarrow> Inl e
                   | Inr w \<Rightarrow>
                       (case first_len w of
                          Inl e \<Rightarrow> Inl e
                        | Inr s \<Rightarrow>
                            Inr \<lparr>ret = Some w, wsize = s, eps = eps st,
                                 fragments = fragments st @ [(choice d, wsize st)]\<rparr>)))"

text \<open>
  What the generator can return: \<^verbatim>\<open>choice\<close> returns the index of an episode of positive
  probability, \<^verbatim>\<open>randint(0, total - 1)\<close> a value below \<open>total - 1\<close>.
\<close>

definition possible_draw :: "nat list \<Rightarrow> 'k sampling \<Rightarrow> draw \<Rightarrow> bool" where
  "possible_draw ns st d =
     (choice d < length ns \<and> choice d < length (eps st) \<and> 0 < probabilities ns ! choice d \<and>
      (case first_len (snd (eps st ! choice d)) of
         Inl _ \<Rightarrow> True
       | Inr n \<Rightarrow> \<not> (2 \<le> n \<and> not_ret (ret st)) \<or> randint d < n - 1))"

text \<open>
  The inner loop \<^verbatim>\<open>while size < length\<close>. \<^verbatim>\<open>choice\<close> raises \<^verbatim>\<open>ValueError\<close> when
  there is no episode or when the probabilities are not numbers (the sum of the lengths is
  0). The result is \<open>None\<close> when the draws are used up before the loop ends, or when
  the next draw is not one that the generator can return.
\<close>

fun sample_loop ::
  "nat \<Rightarrow> nat list \<Rightarrow> 'k sampling \<Rightarrow> draw list \<Rightarrow> (error + ('k sampling \<times> draw list)) option" where
  "sample_loop len ns st [] =
     (if wsize st < len
      then (if sum_list ns = 0 then Some (Inl ValueError) else None)
      else Some (Inr (st, [])))"
| "sample_loop len ns st (d # ds) =
     (if wsize st < len
      then (if sum_list ns = 0 then Some (Inl ValueError)
            else if \<not> possible_draw ns st d then None
            else (case sample_step len st d of
                    Inl e \<Rightarrow> Some (Inl e)
                  | Inr st' \<Rightarrow> sample_loop len ns st' ds))
      else Some (Inr (st, d # ds)))"

text \<open>
  One pass of the outer loop, up to its \<^verbatim>\<open>yield\<close>: the window, the episodes as the pass
  leaves them, the draws that remain, and the ghost list of the fragments. The parameter
  \<^verbatim>\<open>length\<close> is written \<open>len\<close>; it is a natural number: for a negative
  \<^verbatim>\<open>length\<close> the inner loop is not entered, as for 0.
\<close>

definition sample_window ::
  "'k cache \<Rightarrow> nat \<Rightarrow> draw list \<Rightarrow>
   (error + (window option \<times> 'k cache \<times> draw list \<times> (nat \<times> nat) list)) option" where
  "sample_window episodes len ds =
     (case totals (map snd episodes) of
        Inl e \<Rightarrow> Some (Inl e)
      | Inr ns \<Rightarrow>
          (case sample_loop len ns \<lparr>ret = None, wsize = 0, eps = episodes, fragments = []\<rparr> ds of
             None \<Rightarrow> None
           | Some (Inl e) \<Rightarrow> Some (Inl e)
           | Some (Inr (st, ds')) \<Rightarrow> Some (Inr (ret st, eps st, ds', fragments st))))"

text \<open>
  The first \<open>n\<close> windows of the generator, the episodes after them, and for each
  window the ghost list of its fragments.
\<close>

fun sample_episodes ::
  "'k cache \<Rightarrow> nat \<Rightarrow> draw list \<Rightarrow> nat \<Rightarrow>
   (error + (window option list \<times> 'k cache \<times> (nat \<times> nat) list list)) option" where
  "sample_episodes episodes len ds 0 = Some (Inr ([], episodes, []))"
| "sample_episodes episodes len ds (Suc n) =
     (case sample_window episodes len ds of
        None \<Rightarrow> None
      | Some (Inl e) \<Rightarrow> Some (Inl e)
      | Some (Inr (w, episodes', ds', frags)) \<Rightarrow>
          (case sample_episodes episodes' len ds' n of
             None \<Rightarrow> None
           | Some (Inl e) \<Rightarrow> Some (Inl e)
           | Some (Inr (ws, episodes'', frs)) \<Rightarrow> Some (Inr (w # ws, episodes'', frags # frs))))"

subsection \<open>Episodes for the examples\<close>

definition flag :: "bool \<Rightarrow> ndarray" where
  "flag b = NDArray Bool [if b then 1 else 0]"

definition num :: "real \<Rightarrow> ndarray" where
  "num x = NDArray (Floating 32) [x]"

text \<open>An episode as \<^verbatim>\<open>load_episodes\<close> returns it: every field is an array.\<close>

definition loaded :: "nat cache" where
  "loaded = [(0, [(''reward'', NdArray [num 0, num 1, num 2]),
                  (''is_first'', NdArray [flag True, flag False, flag False])])]"

text \<open>
  Two episodes as \<^verbatim>\<open>add_to_cache\<close> builds them, the first with the reset transition
  only.
\<close>

definition mixed :: "nat cache" where
  "mixed = [(0, [(''reward'', PyList [num 0]), (''is_first'', PyList [flag True])]),
            (1, [(''reward'', PyList [num 0, num 1, num 2]),
                 (''is_first'', PyList [flag True, flag False, flag False])])]"

text \<open>
  The episodes keep their lengths while a window is built, and every fragment recorded so
  far comes from an episode of at least two entries.
\<close>

definition frag_inv :: "'k cache \<Rightarrow> 'k sampling \<Rightarrow> bool" where
  "frag_inv episodes st \<longleftrightarrow>
     map (\<lambda>x. first_len (snd x)) (eps st) = map (\<lambda>x. first_len (snd x)) episodes \<and>
     (\<forall>f\<in>set (fragments st). fst f < length episodes \<and>
        (\<exists>n. first_len (snd (episodes ! fst f)) = Inr n \<and> 2 \<le> n))"

text \<open>Two episodes with the same fields, one built in memory and one loaded from disk.\<close>

definition pair :: "nat cache" where
  "pair = [(0, [(''reward'', PyList [num 0, num 1, num 2]),
                (''is_first'', PyList [flag True, flag False, flag False])]),
           (1, [(''reward'', NdArray [num 3, num 4]),
                (''is_first'', NdArray [flag True, flag False])])]"

text \<open>
  The episode that \<^verbatim>\<open>add_to_cache\<close> builds from a reset transition, a second
  transition without action and a third one with it: three observations, two actions.
\<close>

definition late :: "nat cache" where
  "late = [(0, [(''obs'', PyList [NDArray (Floating 32) [1], NDArray (Floating 32) [1],
                                  NDArray (Floating 32) [1]]),
                (''action'', PyList [NDArray (Floating 32) [0], NDArray (Floating 32) [1]])])]"

subsection \<open>Well-formed episodes and the invariant of the inner loop\<close>

text \<open>
  An episode of the data model: distinct field names, and every field has the same number
  of entries, at least two.
\<close>

definition wf_episode :: "episode \<Rightarrow> bool" where
  "wf_episode ep \<longleftrightarrow>
     distinct (map fst ep) \<and>
     (case first_len ep of
        Inl _ \<Rightarrow> False
      | Inr n \<Rightarrow> 2 \<le> n \<and> list_all (\<lambda>x. clen (snd x) = n) ep)"

text \<open>The names of the fields that a window takes from an episode.\<close>

definition field_names :: "episode \<Rightarrow> string set" where
  "field_names ep = {k \<in> fst ` set ep. \<not> is_log k}"

text \<open>
  The invariant of \<^verbatim>\<open>while size < length\<close>: once a window is started it is not empty,
  every field of it has \<^verbatim>\<open>size\<close> entries, \<^verbatim>\<open>size\<close> is positive and at most
  \<^verbatim>\<open>length\<close>, and its \<^verbatim>\<open>is_first\<close> field, if it has one, is true at index 0 and at
  the index where each fragment was attached.
\<close>

definition window_inv :: "nat \<Rightarrow> 'k sampling \<Rightarrow> bool" where
  "window_inv len st \<longleftrightarrow>
     list_all (\<lambda>x. wf_episode (snd x)) (eps st) \<and>
     (case ret st of
        None \<Rightarrow> wsize st = 0 \<and> fragments st = []
      | Some w \<Rightarrow>
          w \<noteq> [] \<and> distinct (map fst w) \<and> 0 < wsize st \<and> wsize st \<le> len \<and>
          list_all (\<lambda>x. clen (snd x) = wsize st) w \<and>
          (case map_of w ''is_first'' of
             None \<Rightarrow> True
           | Some c \<Rightarrow>
               is_true (rows c ! 0) \<and>
               list_all (\<lambda>f. snd f < wsize st \<and> is_true (rows c ! snd f)) (fragments st)))"

section \<open>The return estimator\<close>

subsection \<open>Tensors\<close>

text \<open>
  A tensor is a number (a tensor with no dimension) or the sequence of its slices along
  the first dimension. The shape of the slices is kept with the sequence, so that a tensor
  with no slice still has a shape, as in \<^verbatim>\<open>value[1:]\<close> for a \<^verbatim>\<open>value\<close> of one step.
  Entries are exact reals: the rounding of floating point arithmetic is not modelled.
\<close>

datatype tensor = Scalar real | Tensor (sub: "tensor list") (inner: "nat list")

fun shape :: "tensor \<Rightarrow> nat list" where
  "shape (Scalar x) = []"
| "shape (Tensor xs s) = length xs # s"

primrec tmap :: "(real \<Rightarrow> real) \<Rightarrow> tensor \<Rightarrow> tensor" where
  "tmap f (Scalar x) = Scalar (f x)"
| "tmap f (Tensor xs s) = Tensor (map (tmap f) xs) s"

text \<open>\<^verbatim>\<open>x[i]\<close> for \<open>0 \<le> i\<close>, \<^verbatim>\<open>x[-1]\<close>, \<^verbatim>\<open>x[1:]\<close> and \<^verbatim>\<open>x[None]\<close>.\<close>

fun index0 :: "tensor \<Rightarrow> nat \<Rightarrow> error + tensor" where
  "index0 (Scalar x) i = Inl IndexError"
| "index0 (Tensor xs s) i = (if i < length xs then Inr (xs ! i) else Inl IndexError)"

fun index_last :: "tensor \<Rightarrow> error + tensor" where
  "index_last (Scalar x) = Inl IndexError"
| "index_last (Tensor xs s) = (if xs = [] then Inl IndexError else Inr (last xs))"

fun slice_from1 :: "tensor \<Rightarrow> error + tensor" where
  "slice_from1 (Scalar x) = Inl IndexError"
| "slice_from1 (Tensor xs s) = Inr (Tensor (drop 1 xs) s)"

definition unsqueeze0 :: "tensor \<Rightarrow> tensor" where
  "unsqueeze0 t = Tensor [t] (shape t)"

text \<open>
  \<^verbatim>\<open>torch.cat([a, b], 0)\<close>: the shapes must agree after the first dimension; a tensor
  of shape \<open>[0]\<close> is skipped; a number cannot be concatenated.
\<close>

fun cat0 :: "tensor \<Rightarrow> tensor \<Rightarrow> error + tensor" where
  "cat0 (Tensor xs s) (Tensor ys s') =
     (if s = s' then Inr (Tensor (xs @ ys) s)
      else if xs = [] \<and> s = [] then Inr (Tensor ys s')
      else if ys = [] \<and> s' = [] then Inr (Tensor xs s)
      else Inl RuntimeError)"
| "cat0 _ _ = Inl RuntimeError"

text \<open>
  Arithmetic of two tensors, with broadcasting: the shapes are aligned at their last
  dimensions, and two sizes are compatible when they are equal or one of them is 1.
\<close>

fun broadcast_rev :: "nat list \<Rightarrow> nat list \<Rightarrow> nat list option" where
  "broadcast_rev [] ys = Some ys"
| "broadcast_rev xs [] = Some xs"
| "broadcast_rev (x # xs) (y # ys) =
     (if x = y \<or> y = 1 then map_option ((#) x) (broadcast_rev xs ys)
      else if x = 1 then map_option ((#) y) (broadcast_rev xs ys)
      else None)"

definition broadcast_shapes :: "nat list \<Rightarrow> nat list \<Rightarrow> nat list option" where
  "broadcast_shapes s1 s2 = map_option rev (broadcast_rev (rev s1) (rev s2))"

text \<open>
  The slice \<open>i\<close> of a tensor seen with \<open>r\<close> dimensions: the tensor itself when it has
  fewer dimensions, its only slice when its first size is 1.
\<close>

definition sel :: "tensor \<Rightarrow> nat \<Rightarrow> nat \<Rightarrow> tensor" where
  "sel t r i =
     (if length (shape t) < r then t
      else (case t of
              Scalar x \<Rightarrow> t
            | Tensor xs s \<Rightarrow> (if length xs = 1 then xs ! 0 else xs ! i)))"

definition the_scalar :: "tensor \<Rightarrow> real" where
  "the_scalar t = (case t of Scalar x \<Rightarrow> x | Tensor xs s \<Rightarrow> 0)"

fun bop_sh :: "(real \<Rightarrow> real \<Rightarrow> real) \<Rightarrow> nat list \<Rightarrow> tensor \<Rightarrow> tensor \<Rightarrow> tensor" where
  "bop_sh f [] a b = Scalar (f (the_scalar a) (the_scalar b))"
| "bop_sh f (n # rest) a b =
     Tensor (map (\<lambda>i. bop_sh f rest (sel a (Suc (length rest)) i) (sel b (Suc (length rest)) i))
               [0..<n]) rest"

definition bop :: "(real \<Rightarrow> real \<Rightarrow> real) \<Rightarrow> tensor \<Rightarrow> tensor \<Rightarrow> error + tensor" where
  "bop f a b =
     (case broadcast_shapes (shape a) (shape b) of
        None \<Rightarrow> Inl RuntimeError
      | Some sh \<Rightarrow> Inr (bop_sh f sh a b))"

text \<open>
  \<^verbatim>\<open>torch.cat([a, b], dim=-1)\<close>: the shapes must agree before the last dimension; a
  number cannot be concatenated.
\<close>

fun cat_last_sh :: "nat list \<Rightarrow> nat \<Rightarrow> tensor \<Rightarrow> tensor \<Rightarrow> tensor" where
  "cat_last_sh [] m a b = a"
| "cat_last_sh [n] m a b = Tensor (sub a @ sub b) []"
| "cat_last_sh (n # k # rest) m a b =
     Tensor (map (\<lambda>i. cat_last_sh (k # rest) m (sub a ! i) (sub b ! i)) [0..<n])
       (butlast (k # rest) @ [last (k # rest) + m])"

definition cat_last :: "tensor \<Rightarrow> tensor \<Rightarrow> error + tensor" where
  "cat_last a b =
     (if shape a = [] \<or> shape b = [] then Inl RuntimeError
      else if butlast (shape a) \<noteq> butlast (shape b) then Inl RuntimeError
      else Inr (cat_last_sh (shape a) (last (shape b)) a b))"

text \<open>
  \<^verbatim>\<open>torch.reshape(outputs, [outputs.shape[0], outputs.shape[1], 1])\<close>. Reading
  \<^verbatim>\<open>shape[1]\<close> of a tensor with fewer than two dimensions raises; the number of entries
  must stay the same. The entries are taken in row-major order.
\<close>

primrec flatten :: "tensor \<Rightarrow> real list" where
  "flatten (Scalar x) = [x]"
| "flatten (Tensor xs s) = concat (map flatten xs)"

definition reshape_last1 :: "tensor \<Rightarrow> error + tensor" where
  "reshape_last1 t =
     (case shape t of
        s0 # s1 # rest \<Rightarrow>
          (if s0 * s1 * prod_list rest = s0 * s1
           then Inr (Tensor
                  (map (\<lambda>i. Tensor (map (\<lambda>j. Tensor [Scalar (flatten t ! (i * s1 + j))] [])
                                     [0..<s1]) [1])
                     [0..<s0]) [s1, 1])
           else Inl RuntimeError)
      | _ \<Rightarrow> Inl IndexError)"

text \<open>\<^verbatim>\<open>torch.flip(outputs, [1])\<close> of a tensor with three dimensions.\<close>

definition flip1 :: "tensor \<Rightarrow> tensor" where
  "flip1 t = Tensor (map (\<lambda>row. Tensor (rev (sub row)) (inner row)) (sub t)) (inner t)"

subsection \<open>\<^verbatim>\<open>static_scan_for_lambda_return\<close> and \<^verbatim>\<open>lambda_return\<close>\<close>

text \<open>
  The function that \<^verbatim>\<open>lambda_return\<close> passes to the scan,
  \<^verbatim>\<open>lambda agg, cur0, cur1: cur0 + cur1 * lam * agg\<close>.
\<close>

definition fn :: "real \<Rightarrow> tensor \<Rightarrow> tensor \<Rightarrow> tensor \<Rightarrow> error + tensor" where
  "fn lam agg cur0 cur1 =
     (case bop (*) (tmap (\<lambda>x. x * lam) cur1) agg of
        Inl e \<Rightarrow> Inl e
      | Inr t \<Rightarrow> bop (+) cur0 t)"

text \<open>
  The loop of the scan over the reversed indices. \<^verbatim>\<open>outputs\<close> is unbound until the
  first pass (the \<^verbatim>\<open>flag\<close> of the source).
\<close>

fun scan_loop ::
  "real \<Rightarrow> tensor \<Rightarrow> tensor \<Rightarrow> nat list \<Rightarrow> tensor \<Rightarrow> tensor option \<Rightarrow>
   error + (tensor \<times> tensor option)" where
  "scan_loop lam inputs pcont [] last' outputs = Inr (last', outputs)"
| "scan_loop lam inputs pcont (index # indices) last' outputs =
     (case index0 inputs index of
        Inl e \<Rightarrow> Inl e
      | Inr cur0 \<Rightarrow>
          (case index0 pcont index of
             Inl e \<Rightarrow> Inl e
           | Inr cur1 \<Rightarrow>
               (case fn lam last' cur0 cur1 of
                  Inl e \<Rightarrow> Inl e
                | Inr l \<Rightarrow>
                    (case outputs of
                       None \<Rightarrow> scan_loop lam inputs pcont indices l (Some l)
                     | Some out \<Rightarrow>
                         (case cat_last out l of
                            Inl e \<Rightarrow> Inl e
                          | Inr out' \<Rightarrow> scan_loop lam inputs pcont indices l (Some out'))))))"

text \<open>
  \<^verbatim>\<open>static_scan_for_lambda_return(fn, (inputs, pcont), start)\<close>; the result of
  \<^verbatim>\<open>torch.unbind(outputs, dim=0)\<close> is a tuple of tensors.
\<close>

definition static_scan_for_lambda_return ::
  "real \<Rightarrow> tensor \<Rightarrow> tensor \<Rightarrow> tensor \<Rightarrow> error + tensor list" where
  "static_scan_for_lambda_return lam inputs pcont start =
     (case shape inputs of
        [] \<Rightarrow> Inl IndexError
      | n # _ \<Rightarrow>
          (case scan_loop lam inputs pcont (rev [0..<n]) start None of
             Inl e \<Rightarrow> Inl e
           | Inr (_, None) \<Rightarrow> Inl UnboundLocalError
           | Inr (_, Some outputs) \<Rightarrow>
               (case reshape_last1 outputs of
                  Inl e \<Rightarrow> Inl e
                | Inr out \<Rightarrow> Inr (sub (flip1 out)))))"

text \<open>\<^verbatim>\<open>pcont\<close> is a number or a tensor.\<close>

datatype pcont_arg = Number real | Values tensor

text \<open>
  \<^verbatim>\<open>lambda_return(reward, value, pcont, bootstrap, lambda_, axis)\<close>. For an \<^verbatim>\<open>axis\<close>
  other than 0 the function cannot return: the scan returns a tuple, which has no
  \<^verbatim>\<open>permute\<close>. The model gives \<^verbatim>\<open>AttributeError\<close> there, also when \<^verbatim>\<open>permute\<close> or
  the scan would raise before.
\<close>

definition lambda_return ::
  "tensor \<Rightarrow> tensor \<Rightarrow> pcont_arg \<Rightarrow> tensor option \<Rightarrow> real \<Rightarrow> int \<Rightarrow> error + tensor list" where
  "lambda_return reward value pcont bootstrap lam axis =
     (if length (shape reward) \<noteq> length (shape value) then Inl AssertionError
      else
        let pcont = (case pcont of
                       Number c \<Rightarrow> tmap (\<lambda>x. c * x) (tmap (\<lambda>_. 1) reward)
                     | Values t \<Rightarrow> t)
        in if axis \<noteq> 0 then Inl AttributeError
           else
             (case (case bootstrap of
                      None \<Rightarrow> (case index_last value of
                                 Inl e \<Rightarrow> Inl e
                               | Inr v \<Rightarrow> Inr (tmap (\<lambda>_. 0) v))
                    | Some b \<Rightarrow> Inr b) of
                Inl e \<Rightarrow> Inl e
              | Inr bootstrap \<Rightarrow>
                  (case slice_from1 value of
                     Inl e \<Rightarrow> Inl e
                   | Inr rest \<Rightarrow>
                       (case cat0 rest (unsqueeze0 bootstrap) of
                          Inl e \<Rightarrow> Inl e
                        | Inr next_values \<Rightarrow>
                            (case bop (*) pcont next_values of
                               Inl e \<Rightarrow> Inl e
                             | Inr t \<Rightarrow>
                                 (case bop (+) reward (tmap (\<lambda>x. x * (1 - lam)) t) of
                                    Inl e \<Rightarrow> Inl e
                                  | Inr inputs \<Rightarrow>
                                      static_scan_for_lambda_return lam inputs pcont
                                        bootstrap))))))"

subsection \<open>Inputs of shape \<open>[T, B, 1]\<close> and the returns they should give\<close>

text \<open>
  The tensors that the callers pass have the shape \<open>[T, B, 1]\<close> (time, batch, one value),
  and the bootstrap the shape \<open>[B, 1]\<close>. They are written here from lists of reals:
  \<open>emb3 B xss\<close> is the tensor whose entry at time \<open>t\<close> and batch index \<open>b\<close> is
  \<open>xss ! t ! b\<close>.
\<close>

definition emb1 :: "real \<Rightarrow> tensor" where
  "emb1 x = Tensor [Scalar x] []"

definition emb2 :: "real list \<Rightarrow> tensor" where
  "emb2 xs = Tensor (map emb1 xs) [1]"

definition emb3 :: "nat \<Rightarrow> real list list \<Rightarrow> tensor" where
  "emb3 B xss = Tensor (map emb2 xss) [B, 1]"

text \<open>A sequence with one dimension only.\<close>

definition vec :: "real list \<Rightarrow> tensor" where
  "vec xs = Tensor (map Scalar xs) []"

text \<open>The sequence of one batch index.\<close>

definition col :: "nat \<Rightarrow> real list list \<Rightarrow> real list" where
  "col b xss = map (\<lambda>row. row ! b) xss"

text \<open>
  The discounted Monte-Carlo return as the specification words it:
  \<open>R[t] = reward[t] + discount[t] * R[t+1]\<close>, with the bootstrap after the last step.
\<close>

fun spec_monte_carlo :: "real list \<Rightarrow> real list \<Rightarrow> real \<Rightarrow> real list" where
  "spec_monte_carlo (r # rs) (d # ds) bootstrap =
     (r + d * (case spec_monte_carlo rs ds bootstrap of [] \<Rightarrow> bootstrap | R # _ \<Rightarrow> R))
     # spec_monte_carlo rs ds bootstrap"
| "spec_monte_carlo _ _ bootstrap = []"

text \<open>
  The one-step target as the specification words it:
  \<open>reward[t] + discount[t] * next_value[t]\<close>, where \<open>next_value\<close> is \<open>value\<close> shifted
  by one step with the bootstrap appended.
\<close>

definition spec_one_step :: "real list \<Rightarrow> real list \<Rightarrow> real list \<Rightarrow> real \<Rightarrow> real list" where
  "spec_one_step rs ds vs bootstrap =
     map (\<lambda>(r, d, nv). r + d * nv) (zip rs (zip ds (tl vs @ [bootstrap])))"

text \<open>
  The scan on lists, one vector (over the batch) per step: the vectors of the steps met so
  far are collected in the order of the scan, the last step first.
\<close>

definition blend :: "real \<Rightarrow> real list \<Rightarrow> real list \<Rightarrow> real list \<Rightarrow> real list" where
  "blend lam cur0 cur1 agg = map (\<lambda>(c0, c1, a). c0 + c1 * lam * a) (zip cur0 (zip cur1 agg))"

fun scan_vecs ::
  "real \<Rightarrow> real list list \<Rightarrow> real list list \<Rightarrow> nat list \<Rightarrow> real list \<Rightarrow> real list list \<Rightarrow>
   real list \<times> real list list" where
  "scan_vecs lam ins ps [] l acc = (l, acc)"
| "scan_vecs lam ins ps (t # ts) l acc =
     scan_vecs lam ins ps ts (blend lam (ins ! t) (ps ! t) l)
       (acc @ [blend lam (ins ! t) (ps ! t) l])"

text \<open>The tensor of shape \<open>[B, n]\<close> that the scan builds from \<open>n\<close> vectors.\<close>

definition outT :: "nat \<Rightarrow> real list list \<Rightarrow> tensor" where
  "outT B acc = Tensor (map (\<lambda>b. Tensor (map (\<lambda>l. Scalar (l ! b)) acc) []) [0..<B]) [length acc]"

text \<open>
  The vectors of the scan in the order of time, and the inputs of the scan,
  \<^verbatim>\<open>reward + pcont * next_values * (1 - lambda_)\<close>, on lists.
\<close>

definition returns_of :: "real \<Rightarrow> real list list \<Rightarrow> real list list \<Rightarrow> real list \<Rightarrow> real list list" where
  "returns_of lam ins ps bs = rev (snd (scan_vecs lam ins ps (rev [0..<length ins]) bs []))"

definition inputs_of ::
  "real \<Rightarrow> real list list \<Rightarrow> real list list \<Rightarrow> real list list \<Rightarrow> real list \<Rightarrow> real list list" where
  "inputs_of lam rs vs ps bs =
     map (\<lambda>(r, t). map (\<lambda>(x, y). x + y) (zip r t))
       (zip rs (map (map (\<lambda>x. x * (1 - lam)))
                  (map (\<lambda>(u, v). map (\<lambda>(x, y). x * y) (zip u v)) (zip ps (tl vs @ [bs])))))"

section \<open>The simulation driver\<close>

subsection \<open>Environments, and what the agent and the environments answer\<close>

text \<open>
  Modelled from the spec: the environment class is not in \<^verbatim>\<open>tools.py\<close>. By the
  environment contract of the specification an environment has a stable \<^verbatim>\<open>id\<close>, the six
  curriculum values that \<^verbatim>\<open>get_curriculum_values()\<close> returns and that
  \<^verbatim>\<open>set_curriculum_values(...)\<close> stores, in the order of the source, and the four
  limits \<^verbatim>\<open>map_limit\<close>, \<^verbatim>\<open>num_obstacles_limit\<close>,
  \<^verbatim>\<open>distance_between_objects_limit\<close> and \<^verbatim>\<open>max_length\<close>. Numbers are exact reals.
  The method \<^verbatim>\<open>curriculum_coords_check\<close> is a parameter \<open>coords_check\<close> of the functions
  below; it reads the environment and three numbers.
\<close>

record 'k env =
  env_id :: 'k
  size_of_map :: real
  random_starting_orientation :: bool
  num_obstacles :: real
  min_dist_between_objs :: real
  episode_length :: real
  reward_first_time :: bool
  map_limit :: real
  num_obstacles_limit :: real
  distance_between_objects_limit :: real
  max_length :: real

text \<open>
  The action of one slot, after the conversion at the top of the loop: a dict of arrays
  or an array.
\<close>

datatype act = DictAction transition | ArrayAction ndarray

text \<open>
  The result of \<^verbatim>\<open>post_step\<close> for one slot: the observation, the reward, the flag
  \<^verbatim>\<open>done\<close>, and of the mapping \<^verbatim>\<open>info\<close> the entry \<^verbatim>\<open>discount\<close>, if it has one.
\<close>

type_synonym post = "transition \<times> real \<times> bool \<times> ndarray option"

text \<open>
  What the outside answers in one pass of the loop: the observation that
  \<^verbatim>\<open>envs[i].reset()()\<close> returns for the slot \<open>i\<close>, the list of actions and the state that
  the agent returns, and the result of \<^verbatim>\<open>post_step\<close> for the slot \<open>i\<close>. The calls
  \<^verbatim>\<open>pre_step\<close> and \<^verbatim>\<open>simulate_steps\<close> return nothing that the loop reads.
\<close>

record 's responses =
  reset_result :: "nat \<Rightarrow> transition"
  agent_action :: "act list"
  agent_state_out :: 's
  post_step_result :: "nat \<Rightarrow> post"

text \<open>
  The variable \<^verbatim>\<open>length\<close> holds a NumPy array, or a Python number once the logging
  code has assigned to it.
\<close>

datatype lengths = LengthArray "real list" | LengthNumber real

text \<open>
  The variables of \<^verbatim>\<open>simulate_multi\<close> that live across the passes of the loop, with the
  objects that the loop mutates (the environments and the cache). The first seven are the
  components of the simulation state. \<open>new_episode_length\<close> and \<open>eval_lengths\<close> are
  unbound (\<open>None\<close>) until a pass assigns them.
\<close>

record ('k, 's) sim_state =
  st_step :: int
  st_episode :: int
  st_done :: "bool list"
  st_length :: lengths
  st_obs :: "transition option list"
  st_agent_state :: "'s option"
  st_reward :: "real list"
  total_reward :: real
  episode_counter :: int
  new_episode_length :: "real option"
  eval_lengths :: "real list option"
  st_envs :: "'k env list"
  st_cache :: "'k cache"

subsection \<open>The curriculum controller\<close>

text \<open>
  The body of \<^verbatim>\<open>for i in range(len(envs))\<close> for one environment. The three first
  values have an \<^verbatim>\<open>else\<close> branch that keeps the old value; \<^verbatim>\<open>new_episode_length\<close>
  has none, so it keeps what an earlier pass assigned, and reading it raises
  \<^verbatim>\<open>UnboundLocalError\<close> when no pass has.
\<close>

definition increase_difficulty ::
  "('k env \<Rightarrow> real \<Rightarrow> real \<Rightarrow> real \<Rightarrow> bool) \<Rightarrow> int \<Rightarrow> real option \<Rightarrow> 'k env \<Rightarrow>
   error + ('k env \<times> real option)" where
  "increase_difficulty coords_check counter nel e =
     (let new_map_size =
            (if size_of_map e < map_limit e then min (size_of_map e + 2) (map_limit e)
             else size_of_map e);
          new_num_obstacles =
            (if num_obstacles e < num_obstacles_limit e
             then min (num_obstacles e + 1) (num_obstacles_limit e)
             else num_obstacles e);
          new_min_dist_between_objs =
            (if min_dist_between_objs e < distance_between_objects_limit e
             then min (min_dist_between_objs e + 1 / 2) (distance_between_objects_limit e)
             else min_dist_between_objs e);
          nel' =
            (if episode_length e < max_length e
             then Some (min (episode_length e + 75) (max_length e))
             else nel);
          first_time = (if counter > 20 then False else reward_first_time e);
          new_map_size =
            (if coords_check e (new_num_obstacles + 3) new_min_dist_between_objs new_map_size
             then min (new_map_size + 3) (map_limit e)
             else new_map_size);
          orientation = (if new_map_size \<ge> 20 then True else random_starting_orientation e)
      in case nel' of
           None \<Rightarrow> Inl UnboundLocalError
         | Some l \<Rightarrow>
             Inr (e\<lparr>size_of_map := new_map_size, random_starting_orientation := orientation,
                    num_obstacles := new_num_obstacles,
                    min_dist_between_objs := new_min_dist_between_objs,
                    episode_length := l, reward_first_time := first_time\<rparr>, nel'))"

text \<open>The loop over the environments; it stops at the first exception.\<close>

fun increase_all ::
  "('k env \<Rightarrow> real \<Rightarrow> real \<Rightarrow> real \<Rightarrow> bool) \<Rightarrow> int \<Rightarrow> real option \<Rightarrow> 'k env list \<Rightarrow>
   error + ('k env list \<times> real option)" where
  "increase_all coords_check counter nel [] = Inr ([], nel)"
| "increase_all coords_check counter nel (e # es) =
     (case increase_difficulty coords_check counter nel e of
        Inl err \<Rightarrow> Inl err
      | Inr (e', nel') \<Rightarrow>
          (case increase_all coords_check counter nel' es of
             Inl err \<Rightarrow> Inl err
           | Inr (es', nel'') \<Rightarrow> Inr (e' # es', nel'')))"

text \<open>
  The statements of one pass that belong to the controller, in the order of the source:
  \<^verbatim>\<open>total_reward += sum(reward)\<close>, then \<^verbatim>\<open>average_reward\<close> from the counter as it is,
  then \<^verbatim>\<open>episode_counter += int(done.sum())\<close>, then the test with the thresholds 5
  and 6, the update of every environment and the reset of the two accumulators. The
  statements of the loop that stand between them do not touch these variables. The result
  is the environments, \<^verbatim>\<open>total_reward\<close>, \<^verbatim>\<open>episode_counter\<close> and
  \<^verbatim>\<open>new_episode_length\<close>.
\<close>

definition controller ::
  "('k env \<Rightarrow> real \<Rightarrow> real \<Rightarrow> real \<Rightarrow> bool) \<Rightarrow> 'k env list \<Rightarrow> real \<Rightarrow> int \<Rightarrow> real option \<Rightarrow>
   real list \<Rightarrow> bool list \<Rightarrow> error + ('k env list \<times> real \<times> int \<times> real option)" where
  "controller coords_check envs total' counter nel reward flags =
     (let total' = total' + sum_list reward;
          average_reward = (if counter \<noteq> 0 then total' / real_of_int counter else 0);
          counter = counter + int (length (filter id flags))
      in if counter \<ge> 5 \<and> average_reward > 6
         then (case increase_all coords_check counter nel envs of
                 Inl err \<Rightarrow> Inl err
               | Inr (envs', nel') \<Rightarrow> Inr (envs', 0, 0, nel'))
         else Inr (envs, total', counter, nel))"

subsection \<open>One pass of the loop\<close>

text \<open>\<^verbatim>\<open>{k: convert(v) for k, v in t.items()}\<close>\<close>

fun convert_items :: "transition \<Rightarrow> error + transition" where
  "convert_items [] = Inr []"
| "convert_items ((k, v) # rest) =
     (case convert v 32 of
        Inl e \<Rightarrow> Inl e
      | Inr c \<Rightarrow> (case convert_items rest of Inl e \<Rightarrow> Inl e | Inr r \<Rightarrow> Inr ((k, c) # r)))"

text \<open>A Python float as a value: \<^verbatim>\<open>np.array(x)\<close> has the element type \<^verbatim>\<open>float64\<close>.\<close>

definition py_float :: "real \<Rightarrow> ndarray" where
  "py_float x = NDArray (Floating 64) [x]"

text \<open>
  The loop that stores the first observation of every slot that was reset. The list of the
  resets is built before, so an index that is not a slot raises before the cache changes.
\<close>

fun store_resets ::
  "'k env list \<Rightarrow> (nat \<Rightarrow> transition) \<Rightarrow> nat list \<Rightarrow> 'k cache \<Rightarrow> transition option list \<Rightarrow>
   error + ('k cache \<times> transition option list)" where
  "store_resets envs result [] cache obs = Inr (cache, obs)"
| "store_resets envs result (index # rest) cache obs =
     (case convert_items (result index) of
        Inl e \<Rightarrow> Inl e
      | Inr t \<Rightarrow>
          (case add_to_cache cache (env_id (envs ! index))
                  (AList.update ''discount'' (py_float 1) (AList.update ''reward'' (py_float 0) t)) of
             Inl e \<Rightarrow> Inl e
           | Inr cache' \<Rightarrow>
               if index < length obs
               then store_resets envs result rest cache' (obs[index := Some (result index)])
               else Inl IndexError))"

definition reset_envs ::
  "'k env list \<Rightarrow> (nat \<Rightarrow> transition) \<Rightarrow> bool list \<Rightarrow> 'k cache \<Rightarrow> transition option list \<Rightarrow>
   error + ('k cache \<times> transition option list)" where
  "reset_envs envs result flags cache obs =
     (let indices = filter (\<lambda>i. flags ! i) [0..<length flags]
      in if list_all (\<lambda>i. i < length envs) indices
         then store_resets envs result indices cache obs
         else Inl IndexError)"

text \<open>
  \<^verbatim>\<open>{k: np.stack([o[k] for o in obs]) for k in obs[0]}\<close>. The dict goes to the agent
  only; the model keeps the exceptions: no slot, a slot without observation, an
  observation without the key, and values that do not stack.
\<close>

fun stack_column :: "string \<Rightarrow> transition option list \<Rightarrow> error + ndarray list" where
  "stack_column k [] = Inr []"
| "stack_column k (None # rest) = Inl TypeError"
| "stack_column k (Some ob # rest) =
     (case map_of ob k of
        None \<Rightarrow> Inl KeyError
      | Some v \<Rightarrow> (case stack_column k rest of Inl e \<Rightarrow> Inl e | Inr vs \<Rightarrow> Inr (v # vs)))"

fun stack_keys :: "string list \<Rightarrow> transition option list \<Rightarrow> error + (string \<times> ndarray list) list" where
  "stack_keys [] obs = Inr []"
| "stack_keys (k # ks) obs =
     (case stack_column k obs of
        Inl e \<Rightarrow> Inl e
      | Inr vs \<Rightarrow>
          if \<not> same_rows vs then Inl ValueError
          else (case stack_keys ks obs of Inl e \<Rightarrow> Inl e | Inr d \<Rightarrow> Inr ((k, vs) # d)))"

definition stack_obs :: "transition option list \<Rightarrow> error + (string \<times> ndarray list) list" where
  "stack_obs obs =
     (case obs of
        [] \<Rightarrow> Inl IndexError
      | None # _ \<Rightarrow> Inl TypeError
      | Some ob # _ \<Rightarrow> stack_keys (map fst ob) obs)"

text \<open>
  \<^verbatim>\<open>length += 1\<close> and \<^verbatim>\<open>length *= 1 - done\<close>. On an array both work in place, and
  the second needs an operand that broadcasts to the array. On a number the first gives a
  number and the second an array with one entry for each slot.
\<close>

definition not_done :: "bool \<Rightarrow> real" where
  "not_done d = 1 - (if d then 1 else 0)"

definition count_length :: "lengths \<Rightarrow> bool list \<Rightarrow> error + lengths" where
  "count_length len flags =
     (case len of
        LengthArray xs \<Rightarrow>
          if length xs = length flags
          then Inr (LengthArray (map (\<lambda>(x, d). (x + 1) * not_done d) (zip xs flags)))
          else if length flags = 1
          then Inr (LengthArray (map (\<lambda>x. (x + 1) * not_done (flags ! 0)) xs))
          else Inl ValueError
      | LengthNumber x \<Rightarrow> Inr (LengthArray (map (\<lambda>d. (x + 1) * not_done d) flags)))"

text \<open>
  The loop \<^verbatim>\<open>for a, result, env in zip(action, results, envs)\<close> that adds the
  transitions to the cache.
\<close>

definition with_action :: "act \<Rightarrow> transition \<Rightarrow> transition" where
  "with_action a t =
     (case a of
        DictAction d \<Rightarrow> fold (\<lambda>(k, v). AList.update k v) d t
      | ArrayAction v \<Rightarrow> AList.update ''action'' v t)"

fun add_results :: "(act \<times> post \<times> 'k env) list \<Rightarrow> 'k cache \<Rightarrow> error + 'k cache" where
  "add_results [] cache = Inr cache"
| "add_results ((a, (ob, r, d, info), e) # rest) cache =
     (case convert_items ob of
        Inl err \<Rightarrow> Inl err
      | Inr t \<Rightarrow>
          (case add_to_cache cache (env_id e)
                  (AList.update ''discount''
                     (case info of None \<Rightarrow> py_float (not_done d) | Some v \<Rightarrow> v)
                     (AList.update ''reward'' (py_float r) (with_action a t))) of
             Inl err \<Rightarrow> Inl err
           | Inr cache' \<Rightarrow> add_results rest cache'))"

text \<open>
  The logging loop \<^verbatim>\<open>for i in indices\<close> of the slots that are done. It writes the
  file of the episode (not modelled), assigns
  \<^verbatim>\<open>length = len(cache[envs[i].id]["reward"]) - 1\<close>, reads the field \<^verbatim>\<open>image\<close>,
  removes the fields whose name contains \<^verbatim>\<open>log_\<close> from the episode, and then either
  calls \<^verbatim>\<open>erase_over_episodes(cache, limit)\<close>, or (in evaluation) appends the length to
  \<^verbatim>\<open>eval_lengths\<close> and assigns the mean of the list to \<^verbatim>\<open>length\<close>. The calls of the
  logger and the values that only they read are left out.
\<close>

fun log_done ::
  "bool \<Rightarrow> int option \<Rightarrow> 'k env list \<Rightarrow> nat list \<Rightarrow> ('k::linorder) cache \<Rightarrow> lengths \<Rightarrow>
   real list option \<Rightarrow> error + ('k cache \<times> lengths \<times> real list option)" where
  "log_done is_eval limit envs [] cache len ev = Inr (cache, len, ev)"
| "log_done is_eval limit envs (i # rest) cache len ev =
     (case map_of cache (env_id (envs ! i)) of
        None \<Rightarrow> Inl KeyError
      | Some ep \<Rightarrow>
          (case map_of ep ''reward'' of
             None \<Rightarrow> Inl KeyError
           | Some r \<Rightarrow>
               (case map_of ep ''image'' of
                  None \<Rightarrow> Inl KeyError
                | Some video \<Rightarrow>
                    let n = real (clen r) - 1;
                        cache = AList.update (env_id (envs ! i))
                                  (filter (\<lambda>(k, v). \<not> is_log k) ep) cache
                    in if \<not> is_eval
                       then (case erase_over_episodes cache limit of
                               Inl e \<Rightarrow> Inl e
                             | Inr (cache', step_in_dataset) \<Rightarrow>
                                 log_done is_eval limit envs rest cache' (LengthNumber n) ev)
                       else let el = (case ev of None \<Rightarrow> [] | Some l \<Rightarrow> l) @ [n]
                            in log_done is_eval limit envs rest cache
                                 (LengthNumber (sum_list el / real (length el))) (Some el))))"

text \<open>
  The body of the \<^verbatim>\<open>while\<close> loop. An exception leaves the objects partly updated; the
  model returns the exception alone.
\<close>

definition tick ::
  "('k env \<Rightarrow> real \<Rightarrow> real \<Rightarrow> real \<Rightarrow> bool) \<Rightarrow> bool \<Rightarrow> int option \<Rightarrow>
   (('k::linorder), 's) sim_state \<Rightarrow> 's responses \<Rightarrow> error + ('k, 's) sim_state" where
  "tick coords_check is_eval limit st rsp =
     (case (if list_ex id (st_done st)
            then reset_envs (st_envs st) (reset_result rsp) (st_done st) (st_cache st) (st_obs st)
            else Inr (st_cache st, st_obs st)) of
        Inl e \<Rightarrow> Inl e
      | Inr (cache, obs) \<Rightarrow>
          (case stack_obs obs of
             Inl e \<Rightarrow> Inl e
           | Inr stacked \<Rightarrow>
               let action = agent_action rsp; envs = st_envs st
               in if length action \<noteq> length envs then Inl AssertionError
                  else
                    let results = map (post_step_result rsp) [0..<length envs]
                    in if results = [] then Inl ValueError
                       else
                         let obs = map (\<lambda>p. Some (fst p)) results;
                             reward = map (\<lambda>p. fst (snd p)) results;
                             flags = map (\<lambda>p. fst (snd (snd p))) results
                         in (case count_length (st_length st) flags of
                               Inl e \<Rightarrow> Inl e
                             | Inr len \<Rightarrow>
                                 (case controller coords_check envs (total_reward st)
                                         (episode_counter st) (new_episode_length st) reward flags of
                                    Inl e \<Rightarrow> Inl e
                                  | Inr (envs', total', counter, nel) \<Rightarrow>
                                      (case add_results (zip action (zip results envs')) cache of
                                         Inl e \<Rightarrow> Inl e
                                       | Inr cache' \<Rightarrow>
                                           (case log_done is_eval limit envs'
                                                   (filter (\<lambda>i. flags ! i) [0..<length flags])
                                                   cache' len (eval_lengths st) of
                                              Inl e \<Rightarrow> Inl e
                                            | Inr (cache'', len', ev) \<Rightarrow>
                                                Inr \<lparr>st_step = st_step st + int (length envs),
                                                     st_episode =
                                                       st_episode st + int (length (filter id flags)),
                                                     st_done = flags, st_length = len',
                                                     st_obs = obs,
                                                     st_agent_state = Some (agent_state_out rsp),
                                                     st_reward = reward, total_reward = total',
                                                     episode_counter = counter,
                                                     new_episode_length = nel, eval_lengths = ev,
                                                     st_envs = envs', st_cache = cache''\<rparr>))))))"

subsection \<open>\<^verbatim>\<open>simulate_multi\<close>\<close>

text \<open>
  The loop \<^verbatim>\<open>while (steps and step < steps) or (episodes and episode < episodes)\<close>.
  The answers of the outside are given as a list, one element for each pass; the result is
  \<open>None\<close> when the list ends before the loop does.
\<close>

definition running :: "int \<Rightarrow> int \<Rightarrow> ('k, 's) sim_state \<Rightarrow> bool" where
  "running steps episodes st \<longleftrightarrow>
     (steps \<noteq> 0 \<and> st_step st < steps) \<or> (episodes \<noteq> 0 \<and> st_episode st < episodes)"

fun simulate_loop ::
  "('k env \<Rightarrow> real \<Rightarrow> real \<Rightarrow> real \<Rightarrow> bool) \<Rightarrow> bool \<Rightarrow> int option \<Rightarrow> int \<Rightarrow> int \<Rightarrow>
   (('k::linorder), 's) sim_state \<Rightarrow> 's responses list \<Rightarrow> (error + ('k, 's) sim_state) option" where
  "simulate_loop coords_check is_eval limit steps episodes st [] =
     (if running steps episodes st then None else Some (Inr st))"
| "simulate_loop coords_check is_eval limit steps episodes st (rsp # rsps) =
     (if running steps episodes st
      then (case tick coords_check is_eval limit st rsp of
              Inl e \<Rightarrow> Some (Inl e)
            | Inr st' \<Rightarrow> simulate_loop coords_check is_eval limit steps episodes st' rsps)
      else Some (Inr st))"

text \<open>
  The simulation state, the tuple
  \<^verbatim>\<open>(step, episode, done, length, obs, agent_state, reward)\<close>.
\<close>

type_synonym 's simulation_state =
  "int \<times> int \<times> bool list \<times> lengths \<times> transition option list \<times> 's option \<times> real list"

text \<open>
  \<^verbatim>\<open>simulate_multi(agent, envs, cache, directory, logger, start_time, is_eval, limit,
  steps, episodes, state)\<close>. The agent and the methods of the environments are given by
  their answers \<open>rsps\<close>; the directory, the logger and the start time have no part in
  the result. The function returns the tuple; the model also returns the cache and the
  environments as the call leaves them. In evaluation the cache keeps its last episode
  only.
\<close>

definition simulate_multi ::
  "('k env \<Rightarrow> real \<Rightarrow> real \<Rightarrow> real \<Rightarrow> bool) \<Rightarrow> 's responses list \<Rightarrow> ('k::linorder) env list \<Rightarrow>
   'k cache \<Rightarrow> bool \<Rightarrow> int option \<Rightarrow> int \<Rightarrow> int \<Rightarrow> 's simulation_state option \<Rightarrow>
   (error + ('s simulation_state \<times> 'k cache \<times> 'k env list)) option" where
  "simulate_multi coords_check rsps envs cache is_eval limit steps episodes state =
     (let (step, episode, flags, len, obs, agent_state, reward) =
            (case state of
               None \<Rightarrow>
                 (0, 0, replicate (length envs) True, LengthArray (replicate (length envs) 0),
                  replicate (length envs) None, None, replicate (length envs) 0)
             | Some s \<Rightarrow> s)
      in case simulate_loop coords_check is_eval limit steps episodes
                \<lparr>st_step = step, st_episode = episode, st_done = flags, st_length = len,
                 st_obs = obs, st_agent_state = agent_state, st_reward = reward,
                 total_reward = 0, episode_counter = 0, new_episode_length = None,
                 eval_lengths = None, st_envs = envs, st_cache = cache\<rparr> rsps of
           None \<Rightarrow> None
         | Some (Inl e) \<Rightarrow> Some (Inl e)
         | Some (Inr st) \<Rightarrow>
             Some (Inr ((st_step st - steps, st_episode st - episodes, st_done st, st_length st,
                         st_obs st, st_agent_state st, st_reward st),
                        (if is_eval \<and> 1 < length (st_cache st) then [last (st_cache st)]
                         else st_cache st),
                        st_envs st)))"

subsection \<open>The update of one environment, and environments for the examples\<close>

text \<open>
  What an update makes of an environment \<open>e\<close> whose episode length is below its cap, when
  the counter of completed episodes is \<open>counter\<close>: the identifier and the limits stay; the
  number of obstacles, the minimal distance and the episode length grow by 1, 0.5 and 75,
  clamped to their limits; the size of the map grows by 2, clamped, and by 3 more, clamped,
  when the check accepts the new values with three obstacles more; the random orientation
  is switched on once the new size is at least 20; \<^verbatim>\<open>reward_first_time\<close> is switched off
  when the counter exceeds 20.
\<close>

definition advanced ::
  "('k env \<Rightarrow> real \<Rightarrow> real \<Rightarrow> real \<Rightarrow> bool) \<Rightarrow> int \<Rightarrow> 'k env \<Rightarrow> 'k env \<Rightarrow> bool" where
  "advanced coords_check counter e e' \<longleftrightarrow>
     env_id e' = env_id e \<and> map_limit e' = map_limit e \<and>
     num_obstacles_limit e' = num_obstacles_limit e \<and>
     distance_between_objects_limit e' = distance_between_objects_limit e \<and>
     max_length e' = max_length e \<and>
     num_obstacles e' =
       (if num_obstacles e < num_obstacles_limit e
        then min (num_obstacles e + 1) (num_obstacles_limit e) else num_obstacles e) \<and>
     min_dist_between_objs e' =
       (if min_dist_between_objs e < distance_between_objects_limit e
        then min (min_dist_between_objs e + 1 / 2) (distance_between_objects_limit e)
        else min_dist_between_objs e) \<and>
     episode_length e' = min (episode_length e + 75) (max_length e) \<and>
     size_of_map e' =
       (let m = (if size_of_map e < map_limit e then min (size_of_map e + 2) (map_limit e)
                 else size_of_map e)
        in if coords_check e (num_obstacles e' + 3) (min_dist_between_objs e') m
           then min (m + 3) (map_limit e) else m) \<and>
     random_starting_orientation e' = (random_starting_orientation e \<or> 20 \<le> size_of_map e') \<and>
     reward_first_time e' = (reward_first_time e \<and> counter \<le> 20)"

text \<open>An environment with the identifier \<open>k\<close>, at the start of the curriculum.\<close>

definition slot :: "nat \<Rightarrow> nat env" where
  "slot k = \<lparr>env_id = k, size_of_map = 10, random_starting_orientation = False,
             num_obstacles = 2, min_dist_between_objs = 1, episode_length = 100,
             reward_first_time = True, map_limit = 30, num_obstacles_limit = 10,
             distance_between_objects_limit = 4, max_length = 500\<rparr>"

text \<open>An observation with an image, and an action.\<close>

definition frame :: transition where
  "frame = [(''image'', NDArray UInt8 [0])]"

definition move :: act where
  "move = ArrayAction (NDArray (Floating 32) [1])"

text \<open>
  The answers of a pass in which every slot gets the reward 1 and exactly the slots in
  \<open>ended\<close> report \<^verbatim>\<open>done\<close>: the agent has no state (the unit value) and gives one action
  for each of \<open>n\<close> slots.
\<close>

definition answers :: "nat \<Rightarrow> nat set \<Rightarrow> unit responses" where
  "answers n ended =
     \<lparr>reset_result = (\<lambda>i. frame), agent_action = replicate n move, agent_state_out = (),
      post_step_result = (\<lambda>i. (frame, 1, i \<in> ended, None))\<rparr>"

text \<open>A check that refuses every proposal, and one that accepts every proposal.\<close>

definition refuse :: "nat env \<Rightarrow> real \<Rightarrow> real \<Rightarrow> real \<Rightarrow> bool" where
  "refuse e n d m = False"

definition accept :: "nat env \<Rightarrow> real \<Rightarrow> real \<Rightarrow> real \<Rightarrow> bool" where
  "accept e n d m = True"

text \<open>The component \<^verbatim>\<open>length\<close> of the tuple that a call returns.\<close>

definition returned_length ::
  "(error + ('s simulation_state \<times> 'k cache \<times> 'k env list)) option \<Rightarrow> lengths option" where
  "returned_length r =
     (case r of
        Some (Inr ((step, episode, flags, len, rest), cache, envs)) \<Rightarrow> Some len
      | _ \<Rightarrow> None)"

section \<open>Properties of the episode cache\<close>

subsection \<open>Eviction\<close>

lemma erase_loop_filter:
  "erase_loop ds its cache s = Inr (c, n) \<Longrightarrow>
   \<exists>D. D \<subseteq> fst ` set its \<and> c = filter (\<lambda>x. fst x \<notin> D) cache"
proof (induction its arbitrary: cache s)
  case Nil
  then show ?case by (auto intro: exI[of _ "{}"])
next
  case (Cons x its)
  obtain k ep where x: "x = (k, ep)" by (cases x)
  from Cons.prems x obtain m where m: "transitions ep = Inr m"
    by (auto split: sum.splits)
  show ?case
  proof (cases "\<not> truthy ds \<or> s + m \<le> the ds")
    case True
    with Cons.prems x m have "erase_loop ds its cache (s + m) = Inr (c, n)" by simp
    from Cons.IH[OF this] show ?thesis by auto
  next
    case False
    with Cons.prems x m have "erase_loop ds its (AList.delete k cache) s = Inr (c, n)" by simp
    from Cons.IH[OF this] obtain D where D: "D \<subseteq> fst ` set its"
      "c = filter (\<lambda>x. fst x \<notin> D) (AList.delete k cache)" by auto
    have "c = filter (\<lambda>x. fst x \<notin> insert k D) cache"
      unfolding D(2) AList.delete_eq by (auto simp: case_prod_beta intro!: filter_cong)
    with D(1) x show ?thesis by (intro exI[of _ "insert k D"]) auto
  qed
qed

lemma erase_loop_returns:
  "\<forall>x\<in>set its. \<exists>m. transitions (snd x) = Inr m \<Longrightarrow> \<exists>c n. erase_loop ds its cache s = Inr (c, n)"
  by (induction its arbitrary: cache s) (auto split: sum.splits)

lemma erase_loop_falsy:
  "\<not> truthy ds \<Longrightarrow> erase_loop ds its cache s = Inr (c, n) \<Longrightarrow>
    c = cache \<and> n = s + total_steps its"
proof (induction its arbitrary: s)
  case Nil
  then show ?case by (simp add: total_steps_def)
next
  case (Cons x its)
  obtain k ep where x: "x = (k, ep)" by (cases x)
  from Cons.prems x obtain m where m: "transitions ep = Inr m"
    by (auto split: sum.splits)
  with Cons.prems x have "erase_loop ds its cache (s + m) = Inr (c, n)" by simp
  from Cons.IH[OF Cons.prems(1) this] show ?case
    using x m by (simp add: total_steps_def steps_of_def)
qed

lemma erase_loop_bound:
  "truthy ds \<Longrightarrow> erase_loop ds its cache s = Inr (c, n) \<Longrightarrow> s \<le> the ds \<Longrightarrow> n \<le> the ds"
  by (induction its arbitrary: s cache) (auto split: sum.splits if_splits)

lemma sum_list_filter_split:
  "distinct xs \<Longrightarrow> x \<in> set xs \<Longrightarrow> P x \<Longrightarrow>
   sum_list (map f (filter P xs)) = sum_list (map f (filter (\<lambda>z. P z \<and> z \<noteq> x) xs)) + (f x :: int)"
proof (induction xs)
  case Nil
  then show ?case by simp
next
  case (Cons a xs)
  show ?case
  proof (cases "a = x")
    case True
    with Cons.prems have "x \<notin> set xs" by simp
    then have "filter (\<lambda>z. P z \<and> z \<noteq> x) xs = filter P xs"
      by (intro filter_cong) auto
    with True Cons.prems show ?thesis by simp
  next
    case False
    with Cons show ?thesis by simp
  qed
qed

lemma key_unique:
  "distinct (map fst cache) \<Longrightarrow> x \<in> set cache \<Longrightarrow> z \<in> set cache \<Longrightarrow> fst z = fst x \<Longrightarrow> z = x"
  by (metis eq_key_imp_eq_value prod.collapse)

lemma erase_loop_char:
  assumes "erase_loop ds its cache s = Inr (c, n)"
    and "distinct (map fst cache)" and "set its \<subseteq> set cache"
    and "sorted (rev (map fst its))" and "distinct (map fst its)"
    and "\<forall>z\<in>set cache. z \<notin> set its \<longrightarrow> (\<forall>y\<in>set its. fst y < fst z)"
    and "s = total_steps (filter (\<lambda>z. z \<notin> set its) cache)"
  shows "n = total_steps c \<and> set c \<subseteq> set cache \<and> (\<forall>z\<in>set cache. z \<notin> set its \<longrightarrow> z \<in> set c) \<and>
    (truthy ds \<longrightarrow>
      (\<forall>x\<in>set its. (x \<in> set c) = (newer_steps c (fst x) + steps_of (snd x) \<le> the ds)))"
  using assms
proof (induction its arbitrary: cache s)
  case Nil
  then show ?case by auto
next
  case (Cons x its)
  obtain k ep where x: "x = (k, ep)" by (cases x)
  from Cons.prems(1) x obtain m where m: "transitions ep = Inr m"
    by (auto split: sum.splits)
  then have sm: "steps_of ep = m" by (simp add: steps_of_def)
  have xin: "x \<in> set cache" using Cons.prems(3) by simp
  have dc: "distinct cache" using Cons.prems(2) by (simp add: distinct_map)
  have below: "\<forall>y\<in>set its. fst y < k"
    using Cons.prems(4,5) x by (auto simp: sorted_append order_less_le)
  have xnot: "x \<notin> set its" using below x by auto
  have uniq: "\<And>z. z \<in> set cache \<Longrightarrow> fst z = k \<Longrightarrow> z = x"
    using key_unique[OF Cons.prems(2) xin] x by simp
  from erase_loop_filter[OF Cons.prems(1)] obtain D where
    D: "D \<subseteq> fst ` set (x # its)" "c = filter (\<lambda>z. fst z \<notin> D) cache" by blast
  have "filter (\<lambda>z. k < fst z) c = filter (\<lambda>z. z \<notin> set (x # its)) cache"
    unfolding D(2) filter_filter
  proof (rule filter_cong[OF refl])
    fix z assume z: "z \<in> set cache"
    show "(fst z \<notin> D \<and> k < fst z) = (z \<notin> set (x # its))"
      using D(1) below x Cons.prems(6) z by force
  qed
  then have newer: "newer_steps c k = s"
    using Cons.prems(7) by (simp add: newer_steps_def)
  show ?case
  proof (cases "\<not> truthy ds \<or> s + m \<le> the ds")
    case True
    with Cons.prems(1) x m have run: "erase_loop ds its cache (s + m) = Inr (c, n)" by simp
    have p3: "set its \<subseteq> set cache" using Cons.prems(3) by simp
    have p4: "sorted (rev (map fst its))" using Cons.prems(4) by (simp add: sorted_append)
    have p5: "distinct (map fst its)" using Cons.prems(5) by simp
    have p6: "\<forall>z\<in>set cache. z \<notin> set its \<longrightarrow> (\<forall>y\<in>set its. fst y < fst z)"
    proof (intro ballI impI)
      fix z y assume z: "z \<in> set cache" "z \<notin> set its" and y: "y \<in> set its"
      show "fst y < fst z"
      proof (cases "z = x")
        case True
        with below y x show ?thesis by simp
      next
        case False
        with z have "z \<notin> set (x # its)" by simp
        with Cons.prems(6) z(1) y show ?thesis by simp
      qed
    qed
    have "(\<lambda>z. z \<notin> set its \<and> z \<noteq> x) = (\<lambda>z. z \<notin> set (x # its))" by auto
    then have p7: "s + m = total_steps (filter (\<lambda>z. z \<notin> set its) cache)"
      using sum_list_filter_split[OF dc xin, of "\<lambda>z. z \<notin> set its" "\<lambda>z. steps_of (snd z)"] xnot
        Cons.prems(7) sm x by (simp add: total_steps_def)
    from Cons.IH[OF run Cons.prems(2) p3 p4 p5 p6 p7]
    have ih: "n = total_steps c" "set c \<subseteq> set cache"
      "\<forall>z\<in>set cache. z \<notin> set its \<longrightarrow> z \<in> set c"
      "truthy ds \<longrightarrow> (\<forall>x\<in>set its. (x \<in> set c) = (newer_steps c (fst x) + steps_of (snd x) \<le> the ds))"
      by auto
    have "x \<in> set c" using ih(3) xin xnot by simp
    moreover have "truthy ds \<longrightarrow> newer_steps c (fst x) + steps_of (snd x) \<le> the ds"
      using True newer sm x by auto
    ultimately have hx: "(x \<in> set c) = (newer_steps c (fst x) + steps_of (snd x) \<le> the ds)"
      if "truthy ds" using that by simp
    show ?thesis
    proof (intro conjI impI ballI)
      show "n = total_steps c" by (rule ih(1))
      show "set c \<subseteq> set cache" by (rule ih(2))
    next
      fix z assume "z \<in> set cache" "z \<notin> set (x # its)"
      then show "z \<in> set c" using ih(3) by simp
    next
      fix y assume t: "truthy ds" and y: "y \<in> set (x # its)"
      show "(y \<in> set c) = (newer_steps c (fst y) + steps_of (snd y) \<le> the ds)"
      proof (cases "y = x")
        case True
        then show ?thesis using hx[OF t] by simp
      next
        case False
        with y have "y \<in> set its" by simp
        with ih(4) t show ?thesis by blast
      qed
    qed
  next
    case False
    with Cons.prems(1) x m have run: "erase_loop ds its (AList.delete k cache) s = Inr (c, n)"
      by simp
    have del: "AList.delete k cache = filter (\<lambda>z. fst z \<noteq> k) cache"
      by (auto simp: AList.delete_eq case_prod_beta intro!: filter_cong)
    have p2: "distinct (map fst (AList.delete k cache))"
      using Cons.prems(2) by (rule distinct_delete)
    have p3: "set its \<subseteq> set (AList.delete k cache)"
      using Cons.prems(3) below unfolding del by auto
    have p4: "sorted (rev (map fst its))" using Cons.prems(4) by (simp add: sorted_append)
    have p5: "distinct (map fst its)" using Cons.prems(5) by simp
    have p6: "\<forall>z\<in>set (AList.delete k cache). z \<notin> set its \<longrightarrow> (\<forall>y\<in>set its. fst y < fst z)"
    proof (intro ballI impI)
      fix z y assume z: "z \<in> set (AList.delete k cache)" "z \<notin> set its" and y: "y \<in> set its"
      from z(1) have "z \<in> set cache" "fst z \<noteq> k" unfolding del by auto
      with z(2) x have "z \<notin> set (x # its)" by auto
      with Cons.prems(6) \<open>z \<in> set cache\<close> y show "fst y < fst z" by simp
    qed
    have "filter (\<lambda>z. z \<notin> set its) (AList.delete k cache) = filter (\<lambda>z. z \<notin> set (x # its)) cache"
      unfolding del filter_filter
    proof (rule filter_cong[OF refl])
      fix z assume z: "z \<in> set cache"
      have "fst z = k \<longleftrightarrow> z = x" using uniq[OF z] x by auto
      then show "(fst z \<noteq> k \<and> z \<notin> set its) = (z \<notin> set (x # its))" by auto
    qed
    then have p7: "s = total_steps (filter (\<lambda>z. z \<notin> set its) (AList.delete k cache))"
      using Cons.prems(7) by simp
    from Cons.IH[OF run p2 p3 p4 p5 p6 p7]
    have ih: "n = total_steps c" "set c \<subseteq> set (AList.delete k cache)"
      "\<forall>z\<in>set (AList.delete k cache). z \<notin> set its \<longrightarrow> z \<in> set c"
      "truthy ds \<longrightarrow> (\<forall>x\<in>set its. (x \<in> set c) = (newer_steps c (fst x) + steps_of (snd x) \<le> the ds))"
      by auto
    have "x \<notin> set c" using ih(2) x unfolding del by auto
    moreover have "\<not> newer_steps c (fst x) + steps_of (snd x) \<le> the ds"
      using False newer sm x by auto
    moreover have "set c \<subseteq> set cache" using ih(2) unfolding del by auto
    moreover have "\<forall>z\<in>set cache. z \<notin> set (x # its) \<longrightarrow> z \<in> set c"
    proof (intro ballI impI)
      fix z assume z: "z \<in> set cache" "z \<notin> set (x # its)"
      then have "fst z \<noteq> k" using uniq[OF z(1)] by auto
      with z have "z \<in> set (AList.delete k cache)" unfolding del by simp
      with ih(3) z(2) show "z \<in> set c" by simp
    qed
    ultimately have hx: "(x \<in> set c) = (newer_steps c (fst x) + steps_of (snd x) \<le> the ds)"
      and sub: "set c \<subseteq> set cache"
      and others: "\<forall>z\<in>set cache. z \<notin> set (x # its) \<longrightarrow> z \<in> set c"
      by simp_all
    show ?thesis
    proof (intro conjI impI ballI)
      show "n = total_steps c" by (rule ih(1))
      show "set c \<subseteq> set cache" by (rule sub)
    next
      fix z assume "z \<in> set cache" "z \<notin> set (x # its)"
      then show "z \<in> set c" using others by blast
    next
      fix y assume t: "truthy ds" and y: "y \<in> set (x # its)"
      show "(y \<in> set c) = (newer_steps c (fst y) + steps_of (snd y) \<le> the ds)"
      proof (cases "y = x")
        case True
        then show ?thesis using hx by simp
      next
        case False
        with y have "y \<in> set its" by simp
        with ih(4) t show ?thesis by blast
      qed
    qed
  qed
qed

lemma erase_over_episodes_items:
  fixes cache :: "('k::linorder) cache"
  assumes "distinct (map fst cache)"
  shows "set (rev (sort_key fst cache)) \<subseteq> set cache"
    and "sorted (rev (map fst (rev (sort_key fst cache))))"
    and "distinct (map fst (rev (sort_key fst cache)))"
    and "\<forall>z\<in>set cache. z \<notin> set (rev (sort_key fst cache)) \<longrightarrow>
          (\<forall>y\<in>set (rev (sort_key fst cache)). fst y < fst z)"
    and "(0::int) = total_steps (filter (\<lambda>z. z \<notin> set (rev (sort_key fst cache))) cache)"
proof -
  show "set (rev (sort_key fst cache)) \<subseteq> set cache" by simp
  show "sorted (rev (map fst (rev (sort_key fst cache))))"
    by (simp add: rev_map[symmetric])
  show "distinct (map fst (rev (sort_key fst cache)))"
    using assms by (simp add: rev_map distinct_map inj_on_def) 
  show "\<forall>z\<in>set cache. z \<notin> set (rev (sort_key fst cache)) \<longrightarrow>
          (\<forall>y\<in>set (rev (sort_key fst cache)). fst y < fst z)" by simp
  have "filter (\<lambda>z. z \<notin> set (rev (sort_key fst cache))) cache = []"
    by (simp add: filter_empty_conv)
  then show "(0::int) = total_steps (filter (\<lambda>z. z \<notin> set (rev (sort_key fst cache))) cache)"
    by (simp add: total_steps_def)
qed

text \<open>
  Claim C1, as the code has it. With a budget set, \<^verbatim>\<open>erase_over_episodes\<close> visits the
  episodes from the newest identifier to the oldest and keeps an episode exactly when its
  transition count, added to the transitions of the newer episodes that were kept, stays
  within the budget; every other episode is deleted. A deleted episode does not count, so
  the test is made afresh for each older episode.
\<close>

theorem erase_over_episodes_greedy:
  fixes cache :: "('k::linorder) cache"
  assumes "distinct (map fst cache)"
    and "\<forall>x\<in>set cache. \<exists>m. transitions (snd x) = Inr m"
    and "dataset_size = Some b" and "b \<noteq> 0"
  shows "\<exists>c n. erase_over_episodes cache dataset_size = Inr (c, n) \<and> set c \<subseteq> set cache \<and>
    (\<forall>x\<in>set cache. (x \<in> set c) = (newer_steps c (fst x) + steps_of (snd x) \<le> b))"
proof -
  let ?its = "rev (sort_key fst cache)"
  have t: "truthy dataset_size" using assms(3,4) by (simp add: truthy_def)
  have "\<forall>x\<in>set ?its. \<exists>m. transitions (snd x) = Inr m" using assms(2) by simp
  from erase_loop_returns[OF this] obtain c n where
    run: "erase_loop dataset_size ?its cache 0 = Inr (c, n)" by blast
  note its = erase_over_episodes_items[OF assms(1)]
  from erase_loop_char[OF run assms(1) its] t assms(3)
  have "set c \<subseteq> set cache"
    "\<forall>x\<in>set ?its. (x \<in> set c) = (newer_steps c (fst x) + steps_of (snd x) \<le> b)"
    by auto
  then show ?thesis using run by (simp add: erase_over_episodes_def)
qed

theorem erase_over_episodes_greedy_witness:
  "distinct (map fst cache3) \<and> list_all (\<lambda>x. \<exists>m. transitions (snd x) = Inr m) cache3 \<and>
   (\<exists>c n. erase_over_episodes cache3 (Some 4) = Inr (c, n) \<and> set c \<subseteq> set cache3 \<and>
     (\<forall>x\<in>set cache3. (x \<in> set c) = (newer_steps c (fst x) + steps_of (snd x) \<le> 4)))"
proof -
  have d: "distinct (map fst cache3)" by (simp add: cache3_def)
  have r: "\<forall>x\<in>set cache3. \<exists>m. transitions (snd x) = Inr m"
    by (simp add: cache3_def transitions_def)
  have b: "(4::int) \<noteq> 0" by simp
  show ?thesis using d r erase_over_episodes_greedy[OF d r refl b]
    unfolding list_all_iff by blast
qed

text \<open>
  The claim as the specification states it fails: with a budget of 4, the episode 2 (five
  transitions) is deleted, and the older episode 1 (one transition) is kept.
\<close>

theorem erase_over_episodes_keeps_older:
  "erase_over_episodes cache3 (Some 4) =
     Inr ([(1, [(''reward'', PyList (replicate 2 r0))]),
           (3, [(''reward'', PyList (replicate 4 r0))])], 4)
   \<and> (1::nat) < 2 \<and> 2 \<notin> fst ` set [(1::nat, [(''reward'', PyList (replicate 2 r0))]),
           (3, [(''reward'', PyList (replicate 4 r0))])]
   \<and> 1 \<in> fst ` set [(1::nat, [(''reward'', PyList (replicate 2 r0))]),
           (3, [(''reward'', PyList (replicate 4 r0))])]"
  by (simp add: erase_over_episodes_def cache3_def transitions_def clen_def truthy_def
      AList.delete_eq)

text \<open>
  Claim C5, as the code has it. When every episode has a reward field, the function returns
  the total of the retained transitions. With a positive budget that total is within the
  budget; with no budget (\<^verbatim>\<open>None\<close> or 0) nothing is deleted and the total is that of
  the whole cache.
\<close>

theorem erase_over_episodes_budget:
  fixes cache :: "('k::linorder) cache"
  assumes "distinct (map fst cache)"
    and "\<forall>x\<in>set cache. \<exists>m. transitions (snd x) = Inr m"
  shows "\<exists>c n. erase_over_episodes cache dataset_size = Inr (c, n) \<and> n = total_steps c \<and>
    (\<forall>b. dataset_size = Some b \<and> 0 < b \<longrightarrow> n \<le> b) \<and>
    (\<not> truthy dataset_size \<longrightarrow> c = cache)"
proof -
  let ?its = "rev (sort_key fst cache)"
  have "\<forall>x\<in>set ?its. \<exists>m. transitions (snd x) = Inr m" using assms(2) by simp
  from erase_loop_returns[OF this] obtain c n where
    run: "erase_loop dataset_size ?its cache 0 = Inr (c, n)" by blast
  note its = erase_over_episodes_items[OF assms(1)]
  from erase_loop_char[OF run assms(1) its] have n: "n = total_steps c" by blast
  have b: "n \<le> b" if "dataset_size = Some b" "0 < b" for b
  proof -
    from that have "truthy dataset_size" by (simp add: truthy_def)
    from erase_loop_bound[OF this run] that show ?thesis by simp
  qed
  have f: "c = cache" if "\<not> truthy dataset_size"
    using erase_loop_falsy[OF that run] by simp
  show ?thesis using run n b f by (auto simp: erase_over_episodes_def)
qed

theorem erase_over_episodes_budget_witness:
  "distinct (map fst cache3) \<and> list_all (\<lambda>x. \<exists>m. transitions (snd x) = Inr m) cache3 \<and>
   (\<exists>c n. erase_over_episodes cache3 (Some 4) = Inr (c, n) \<and> n = total_steps c \<and> n \<le> 4) \<and>
   (\<exists>c n. erase_over_episodes cache3 None = Inr (c, n) \<and> n = total_steps c \<and> c = cache3)"
proof -
  have d: "distinct (map fst cache3)" by (simp add: cache3_def)
  have r: "\<forall>x\<in>set cache3. \<exists>m. transitions (snd x) = Inr m"
    by (simp add: cache3_def transitions_def)
  have "\<exists>c n. erase_over_episodes cache3 (Some 4) = Inr (c, n) \<and> n = total_steps c \<and> n \<le> 4"
    using erase_over_episodes_budget[OF d r, of "Some 4"] by auto
  moreover
  have "\<exists>c n. erase_over_episodes cache3 None = Inr (c, n) \<and> n = total_steps c \<and> c = cache3"
    using erase_over_episodes_budget[OF d r, of None] by (auto simp: truthy_def)
  ultimately show ?thesis using d r unfolding list_all_iff by blast
qed

text \<open>
  The claim as the specification states it fails for a budget that is set and negative:
  the function returns 0 retained transitions for the budget -1.
\<close>

theorem erase_over_episodes_negative_budget:
  "truthy (Some (- 1)) \<and>
   erase_over_episodes [(1::nat, [(''reward'', PyList (replicate 3 r0))])] (Some (- 1)) = Inr ([], 0)
   \<and> \<not> total_steps ([] :: nat cache) \<le> - 1"
  by (simp add: erase_over_episodes_def transitions_def clen_def truthy_def AList.delete_eq
      total_steps_def)

subsection \<open>Insertion\<close>

lemma seed_fields_lengths:
  "seed_fields t ep0 = Inr ep \<Longrightarrow> (\<forall>k col. map_of ep0 k = Some col \<longrightarrow> clen col = 1) \<Longrightarrow>
   (\<forall>k col. map_of ep k = Some col \<longrightarrow> clen col = 1) \<and>
   dom (map_of ep) = dom (map_of ep0) \<union> fst ` set t"
proof (induction t arbitrary: ep0)
  case Nil
  then show ?case by simp
next
  case (Cons a t)
  obtain key val where a: "a = (key, val)" by (cases a)
  from Cons.prems(1) a obtain c where c: "convert val 32 = Inr c"
    and run: "seed_fields t (AList.update key (PyList [c]) ep0) = Inr ep"
    by (auto split: sum.splits)
  have "\<forall>k col. map_of (AList.update key (PyList [c]) ep0) k = Some col \<longrightarrow> clen col = 1"
    using Cons.prems(2) by (auto simp: update_conv' clen_def)
  from Cons.IH[OF run this] show ?case using a by (auto simp: update_conv')
qed

lemma append_fields_char:
  "append_fields t ep0 = Inr ep \<Longrightarrow> distinct (map fst t) \<Longrightarrow>
   dom (map_of ep) = dom (map_of ep0) \<union> fst ` set t \<and>
   (\<forall>k. k \<notin> fst ` set t \<longrightarrow> map_of ep k = map_of ep0 k) \<and>
   (\<forall>k\<in>fst ` set t. \<exists>col. map_of ep k = Some col \<and>
       clen col = (case map_of ep0 k of None \<Rightarrow> 2 | Some c0 \<Rightarrow> clen c0 + 1))"
proof (induction t arbitrary: ep0)
  case Nil
  then show ?case by simp
next
  case (Cons a t)
  obtain key val where a: "a = (key, val)" by (cases a)
  from Cons.prems(2) a have knot: "key \<notin> fst ` set t" and dt: "distinct (map fst t)" by auto
  from Cons.prems(1) a obtain col1 where
    run: "append_fields t (AList.update key col1 ep0) = Inr ep"
    and len: "clen col1 = (case map_of ep0 key of None \<Rightarrow> 2 | Some c0 \<Rightarrow> clen c0 + 1)"
    by (auto split: sum.splits option.splits column.splits simp: clen_def)
  from Cons.IH[OF run dt] have
    ih1: "dom (map_of ep) = dom (map_of (AList.update key col1 ep0)) \<union> fst ` set t" and
    ih2: "\<forall>k. k \<notin> fst ` set t \<longrightarrow> map_of ep k = map_of (AList.update key col1 ep0) k" and
    ih3: "\<forall>k\<in>fst ` set t. \<exists>col. map_of ep k = Some col \<and>
       clen col = (case map_of (AList.update key col1 ep0) k of None \<Rightarrow> 2 | Some c0 \<Rightarrow> clen c0 + 1)"
    by blast+
  have A: "dom (map_of ep) = dom (map_of ep0) \<union> fst ` set (a # t)"
    using ih1 a by (auto simp: update_conv')
  have B: "\<forall>k. k \<notin> fst ` set (a # t) \<longrightarrow> map_of ep k = map_of ep0 k"
    using ih2 a by (auto simp: update_conv')
  have C: "\<forall>k\<in>fst ` set (a # t). \<exists>col. map_of ep k = Some col \<and>
       clen col = (case map_of ep0 k of None \<Rightarrow> 2 | Some c0 \<Rightarrow> clen c0 + 1)"
  proof
    fix k assume k: "k \<in> fst ` set (a # t)"
    show "\<exists>col. map_of ep k = Some col \<and>
       clen col = (case map_of ep0 k of None \<Rightarrow> 2 | Some c0 \<Rightarrow> clen c0 + 1)"
    proof (cases "k = key")
      case True
      with ih2 knot have "map_of ep k = Some col1" by (simp add: update_conv')
      with len True show ?thesis by simp
    next
      case False
      with k a have kt: "k \<in> fst ` set t" by auto
      from bspec[OF ih3 kt] obtain col where "map_of ep k = Some col"
        "clen col = (case map_of (AList.update key col1 ep0) k of None \<Rightarrow> 2 | Some c0 \<Rightarrow> clen c0 + 1)"
        by blast
      moreover have "map_of (AList.update key col1 ep0) k = map_of ep0 k"
        using False by (simp add: update_conv')
      ultimately show ?thesis by simp
    qed
  qed
  from A B C show ?case by blast
qed

lemma append_fields_backfill:
  "append_fields t ep0 = Inr ep \<Longrightarrow> distinct (map fst t) \<Longrightarrow> (k, v) \<in> set t \<Longrightarrow>
   map_of ep0 k = None \<Longrightarrow>
   \<exists>z c. convert (zero_times v) 32 = Inr z \<and> convert v 32 = Inr c \<and>
     map_of ep k = Some (PyList [z, c])"
proof (induction t arbitrary: ep0)
  case Nil
  then show ?case by simp
next
  case (Cons a t)
  obtain key val where a: "a = (key, val)" by (cases a)
  from Cons.prems(2) a have knot: "key \<notin> fst ` set t" and dt: "distinct (map fst t)" by auto
  show ?case
  proof (cases "k = key")
    case True
    with Cons.prems(3) knot a have v: "v = val" by force
    from Cons.prems(1,4) a True v obtain z c where
      zc: "convert (zero_times v) 32 = Inr z" "convert v 32 = Inr c"
      and run: "append_fields t (AList.update key (PyList [z, c]) ep0) = Inr ep"
      by (auto split: sum.splits)
    from append_fields_char[OF run dt] knot True
    have "map_of ep k = Some (PyList [z, c])" by (simp add: update_conv')
    with zc show ?thesis by blast
  next
    case False
    with Cons.prems(3) a have kin: "(k, v) \<in> set t" by auto
    from Cons.prems(1) a obtain col1 where
      run: "append_fields t (AList.update key col1 ep0) = Inr ep"
      by (auto split: sum.splits option.splits column.splits)
    have "map_of (AList.update key col1 ep0) k = None"
      using False Cons.prems(4) by (simp add: update_conv')
    from Cons.IH[OF run dt kin this] show ?thesis .
  qed
qed

lemma add_all_lengths:
  "add_all cache eid ts = Inr cache' \<Longrightarrow> map_of cache eid = Some ep \<Longrightarrow>
   (\<forall>k col. map_of ep k = Some col \<longrightarrow> clen col = n) \<Longrightarrow>
   (\<forall>t\<in>set ts. distinct (map fst t) \<and> fst ` set t = K) \<Longrightarrow>
   dom (map_of ep) \<subseteq> K \<Longrightarrow> n = 1 \<or> dom (map_of ep) = K \<Longrightarrow>
   \<exists>ep'. map_of cache' eid = Some ep' \<and>
     (\<forall>k col. map_of ep' k = Some col \<longrightarrow> clen col = n + length ts)"
proof (induction ts arbitrary: cache ep n)
  case Nil
  then show ?case by simp
next
  case (Cons t ts)
  from Cons.prems(1,2) obtain ep1 where
    app: "append_fields t ep = Inr ep1"
    and run: "add_all (AList.update eid ep1 cache) eid ts = Inr cache'"
    by (auto simp: add_to_cache_def split: sum.splits)
  from Cons.prems(4) have dt: "distinct (map fst t)" and kt: "fst ` set t = K" by auto
  note ch = append_fields_char[OF app dt]
  have dom1: "dom (map_of ep1) = K" using ch Cons.prems(5) kt by auto
  have len1: "\<forall>k col. map_of ep1 k = Some col \<longrightarrow> clen col = n + 1"
  proof (intro allI impI)
    fix k col assume kc: "map_of ep1 k = Some col"
    then have "k \<in> K" using dom1 by auto
    with ch kt kc have c: "clen col = (case map_of ep k of None \<Rightarrow> 2 | Some c0 \<Rightarrow> clen c0 + 1)"
      by force
    show "clen col = n + 1"
    proof (cases "map_of ep k")
      case None
      with \<open>k \<in> K\<close> have "dom (map_of ep) \<noteq> K" by auto
      with Cons.prems(6) have "n = 1" by simp
      with c None show ?thesis by simp
    next
      case (Some c0)
      with Cons.prems(3) c show ?thesis by simp
    qed
  qed
  have m1: "map_of (AList.update eid ep1 cache) eid = Some ep1" by (simp add: update_conv')
  have rest: "\<forall>t\<in>set ts. distinct (map fst t) \<and> fst ` set t = K" using Cons.prems(4) by simp
  from Cons.IH[OF run m1 len1 rest] dom1
  show ?case by simp
qed

lemma convert_supported: "dtype v \<noteq> OtherDtype \<Longrightarrow> \<exists>c. convert v 32 = Inr c"
  by (cases "dtype v") (auto simp: convert_def)

lemma zero_times_supported: "dtype v \<noteq> OtherDtype \<Longrightarrow> dtype (zero_times v) \<noteq> OtherDtype"
  by (simp add: zero_times_def)

lemma seed_fields_returns:
  "\<forall>v\<in>snd ` set t. dtype v \<noteq> OtherDtype \<Longrightarrow>
   (\<forall>k col. map_of ep0 k = Some col \<longrightarrow> (\<exists>xs. col = PyList xs)) \<Longrightarrow>
   \<exists>ep. seed_fields t ep0 = Inr ep \<and> (\<forall>k col. map_of ep k = Some col \<longrightarrow> (\<exists>xs. col = PyList xs))"
proof (induction t arbitrary: ep0)
  case Nil
  then show ?case by simp
next
  case (Cons a t)
  obtain key val where a: "a = (key, val)" by (cases a)
  from Cons.prems(1) a have "dtype val \<noteq> OtherDtype" by simp
  from convert_supported[OF this] obtain c where c: "convert val 32 = Inr c" by blast
  have 1: "\<forall>v\<in>snd ` set t. dtype v \<noteq> OtherDtype" using Cons.prems(1) by simp
  have 2: "\<forall>k col. map_of (AList.update key (PyList [c]) ep0) k = Some col \<longrightarrow> (\<exists>xs. col = PyList xs)"
    using Cons.prems(2) by (auto simp: update_conv')
  from Cons.IH[OF 1 2] show ?case using a c by simp
qed

lemma append_fields_returns:
  "\<forall>v\<in>snd ` set t. dtype v \<noteq> OtherDtype \<Longrightarrow>
   (\<forall>k col. map_of ep0 k = Some col \<longrightarrow> (\<exists>xs. col = PyList xs)) \<Longrightarrow>
   \<exists>ep. append_fields t ep0 = Inr ep \<and> (\<forall>k col. map_of ep k = Some col \<longrightarrow> (\<exists>xs. col = PyList xs))"
proof (induction t arbitrary: ep0)
  case Nil
  then show ?case by simp
next
  case (Cons a t)
  obtain key val where a: "a = (key, val)" by (cases a)
  from Cons.prems(1) a have sv: "dtype val \<noteq> OtherDtype" by simp
  from convert_supported[OF sv] obtain c where c: "convert val 32 = Inr c" by blast
  from convert_supported[OF zero_times_supported[OF sv]] obtain z where
    z: "convert (zero_times val) 32 = Inr z" by blast
  have 1: "\<forall>v\<in>snd ` set t. dtype v \<noteq> OtherDtype" using Cons.prems(1) by simp
  show ?case
  proof (cases "map_of ep0 key")
    case None
    have 2: "\<forall>k col. map_of (AList.update key (PyList [z, c]) ep0) k = Some col \<longrightarrow> (\<exists>xs. col = PyList xs)"
      using Cons.prems(2) by (auto simp: update_conv')
    from Cons.IH[OF 1 2] show ?thesis using a c z None by simp
  next
    case (Some col0)
    with Cons.prems(2) obtain xs where xs: "col0 = PyList xs" by blast
    have 2: "\<forall>k col. map_of (AList.update key (PyList (xs @ [c])) ep0) k = Some col \<longrightarrow> (\<exists>xs. col = PyList xs)"
      using Cons.prems(2) by (auto simp: update_conv')
    from Cons.IH[OF 1 2] show ?thesis using a c Some xs by simp
  qed
qed

lemma add_all_returns:
  "map_of cache eid = Some ep \<Longrightarrow>
   (\<forall>k col. map_of ep k = Some col \<longrightarrow> (\<exists>xs. col = PyList xs)) \<Longrightarrow>
   \<forall>t\<in>set ts. \<forall>v\<in>snd ` set t. dtype v \<noteq> OtherDtype \<Longrightarrow>
   \<exists>cache'. add_all cache eid ts = Inr cache'"
proof (induction ts arbitrary: cache ep)
  case Nil
  then show ?case by simp
next
  case (Cons t ts)
  from Cons.prems(3) have "\<forall>v\<in>snd ` set t. dtype v \<noteq> OtherDtype" by simp
  from append_fields_returns[OF this Cons.prems(2)] obtain ep1 where
    ep1: "append_fields t ep = Inr ep1"
      "\<forall>k col. map_of ep1 k = Some col \<longrightarrow> (\<exists>xs. col = PyList xs)" by blast
  have m1: "map_of (AList.update eid ep1 cache) eid = Some ep1" by (simp add: update_conv')
  have r: "\<forall>t\<in>set ts. \<forall>v\<in>snd ` set t. dtype v \<noteq> OtherDtype" using Cons.prems(3) by simp
  from Cons.IH[OF m1 ep1(2) r] show ?case
    using Cons.prems(1) ep1(1) by (simp add: add_to_cache_def)
qed

lemma add_all_first:
  assumes "map_of cache eid = None"
    and "\<forall>t\<in>set (t1 # rest). distinct (map fst t)"
    and "\<forall>t\<in>set rest. fst ` set t = K" and "fst ` set t1 \<subseteq> K"
    and "\<forall>t\<in>set (t1 # rest). \<forall>v\<in>snd ` set t. dtype v \<noteq> OtherDtype"
  shows "\<exists>cache' ep. add_all cache eid (t1 # rest) = Inr cache' \<and> map_of cache' eid = Some ep \<and>
     (\<forall>k col. map_of ep k = Some col \<longrightarrow> clen col = Suc (length rest))"
proof -
  from assms(5) have s1: "\<forall>v\<in>snd ` set t1. dtype v \<noteq> OtherDtype" by simp
  have e: "\<forall>k col. map_of ([]::episode) k = Some col \<longrightarrow> (\<exists>xs. col = PyList xs)" by simp
  from seed_fields_returns[OF s1 e] obtain ep1 where
    ep1: "seed_fields t1 [] = Inr ep1"
      "\<forall>k col. map_of ep1 k = Some col \<longrightarrow> (\<exists>xs. col = PyList xs)" by blast
  have "\<forall>k col. map_of ([]::episode) k = Some col \<longrightarrow> clen col = 1" by simp
  from seed_fields_lengths[OF ep1(1) this] have
    len1: "\<forall>k col. map_of ep1 k = Some col \<longrightarrow> clen col = 1"
    and dom1: "dom (map_of ep1) = fst ` set t1" by auto
  let ?c1 = "AList.update eid ep1 cache"
  have m1: "map_of ?c1 eid = Some ep1" by (simp add: update_conv')
  have r: "\<forall>t\<in>set rest. \<forall>v\<in>snd ` set t. dtype v \<noteq> OtherDtype" using assms(5) by simp
  from add_all_returns[OF m1 ep1(2) r] obtain cache' where
    run: "add_all ?c1 eid rest = Inr cache'" by blast
  have h4: "\<forall>t\<in>set rest. distinct (map fst t) \<and> fst ` set t = K" using assms(2,3) by simp
  have h5: "dom (map_of ep1) \<subseteq> K" using dom1 assms(4) by simp
  have h6: "(1::nat) = 1 \<or> dom (map_of ep1) = K" by simp
  from add_all_lengths[OF run m1 len1 h4 h5 h6] obtain ep' where
    "map_of cache' eid = Some ep'" "\<forall>k col. map_of ep' k = Some col \<longrightarrow> clen col = 1 + length rest"
    by blast
  moreover have "add_all cache eid (t1 # rest) = Inr cache'"
    using assms(1) ep1(1) run by (simp add: add_to_cache_def)
  ultimately show ?thesis by auto
qed

text \<open>
  Claim C2, as the code has it. Take a sequence of calls on a new episode id in which every
  transition after the first has the same fields, the fields of the first among them (so
  that a new field can only appear at the second call), and every value has an element type
  that \<^verbatim>\<open>convert\<close> accepts. Then every call returns, and after the call number
  \<open>n + 1\<close> every field of the episode has \<open>n + 1\<close> entries. Moreover, whenever a call
  on an existing episode brings a field that the episode does not have, the field is stored
  as the two-element list of \<^verbatim>\<open>convert(0 * v)\<close> and \<^verbatim>\<open>convert(v)\<close>.
\<close>

theorem add_to_cache_equal_lengths:
  assumes "map_of cache eid = None"
    and "\<forall>t\<in>set (t1 # rest). distinct (map fst t)"
    and "\<forall>t\<in>set rest. fst ` set t = K" and "fst ` set t1 \<subseteq> K"
    and "\<forall>t\<in>set (t1 # rest). \<forall>v\<in>snd ` set t. dtype v \<noteq> OtherDtype"
  shows "(\<forall>n\<le>length rest. \<exists>cache' ep.
       add_all cache eid (t1 # take n rest) = Inr cache' \<and> map_of cache' eid = Some ep \<and>
       (\<forall>k col. map_of ep k = Some col \<longrightarrow> clen col = Suc n)) \<and>
     (\<forall>cache0 ep0 t k v cache1.
       map_of cache0 eid = Some ep0 \<and> map_of ep0 k = None \<and> distinct (map fst t) \<and>
       (k, v) \<in> set t \<and> add_to_cache cache0 eid t = Inr cache1 \<longrightarrow>
       (\<exists>ep1 z c. map_of cache1 eid = Some ep1 \<and> convert (zero_times v) 32 = Inr z \<and>
          convert v 32 = Inr c \<and> map_of ep1 k = Some (PyList [z, c])))"
proof (intro conjI allI impI)
  fix n assume n: "n \<le> length rest"
  have sub: "set (take n rest) \<subseteq> set rest" by (rule set_take_subset)
  have 2: "\<forall>t\<in>set (t1 # take n rest). distinct (map fst t)" using assms(2) sub by auto
  have 3: "\<forall>t\<in>set (take n rest). fst ` set t = K" using assms(3) sub by auto
  have 5: "\<forall>t\<in>set (t1 # take n rest). \<forall>v\<in>snd ` set t. dtype v \<noteq> OtherDtype"
    using assms(5) sub by auto
  from add_all_first[OF assms(1) 2 3 assms(4) 5] n
  show "\<exists>cache' ep. add_all cache eid (t1 # take n rest) = Inr cache' \<and>
       map_of cache' eid = Some ep \<and>
       (\<forall>k col. map_of ep k = Some col \<longrightarrow> clen col = Suc n)" by simp
next
  fix cache0 :: "'a cache" and ep0 t k v cache1
  assume h: "map_of cache0 eid = Some ep0 \<and> map_of ep0 k = None \<and> distinct (map fst t) \<and>
       (k, v) \<in> set t \<and> add_to_cache cache0 eid t = Inr cache1"
  then obtain ep1 where app: "append_fields t ep0 = Inr ep1"
    and c1: "cache1 = AList.update eid ep1 cache0"
    by (auto simp: add_to_cache_def split: sum.splits)
  from h have d: "distinct (map fst t)" and kv: "(k, v) \<in> set t" and no: "map_of ep0 k = None"
    by simp_all
  from append_fields_backfill[OF app d kv no] c1
  show "\<exists>ep1 z c. map_of cache1 eid = Some ep1 \<and> convert (zero_times v) 32 = Inr z \<and>
          convert v 32 = Inr c \<and> map_of ep1 k = Some (PyList [z, c])"
    by (auto simp: update_conv')
qed

theorem add_to_cache_equal_lengths_witness:
  "(\<exists>cache' ep. add_all ([] :: nat cache) 0 [reset_t, step_t, step_t] = Inr cache' \<and>
      map_of cache' 0 = Some ep \<and> (\<forall>k col. map_of ep k = Some col \<longrightarrow> clen col = 3)) \<and>
   (\<exists>cache1 ep1 z c.
      add_to_cache [(0::nat, [(''obs'', PyList [NDArray (Floating 32) [1]])])] 0 step_t = Inr cache1 \<and>
      map_of cache1 0 = Some ep1 \<and> convert (zero_times v1) 32 = Inr z \<and>
      convert v1 32 = Inr c \<and> map_of ep1 ''action'' = Some (PyList [z, c]))"
proof -
  let ?K = "{''obs'', ''action''}"
  let ?c0 = "[(0::nat, [(''obs'', PyList [NDArray (Floating 32) [1]])])]"
  have 1: "map_of ([] :: nat cache) 0 = None" by simp
  have 2: "\<forall>t\<in>set (reset_t # [step_t, step_t]). distinct (map fst t)"
    by (simp add: reset_t_def step_t_def)
  have 3: "\<forall>t\<in>set [step_t, step_t]. fst ` set t = ?K" by (simp add: step_t_def)
  have 4: "fst ` set reset_t \<subseteq> ?K" by (simp add: reset_t_def)
  have 5: "\<forall>t\<in>set (reset_t # [step_t, step_t]). \<forall>v\<in>snd ` set t. dtype v \<noteq> OtherDtype"
    by (simp add: reset_t_def step_t_def v1_def)
  note th = add_to_cache_equal_lengths[OF 1 2 3 4 5]
  from th have "\<exists>cache' ep. add_all ([] :: nat cache) 0 (reset_t # take 2 [step_t, step_t]) = Inr cache' \<and>
      map_of cache' 0 = Some ep \<and> (\<forall>k col. map_of ep k = Some col \<longrightarrow> clen col = Suc 2)"
    by (elim conjE allE[of _ 2]) simp
  then have A: "\<exists>cache' ep. add_all ([] :: nat cache) 0 [reset_t, step_t, step_t] = Inr cache' \<and>
      map_of cache' 0 = Some ep \<and> (\<forall>k col. map_of ep k = Some col \<longrightarrow> clen col = 3)"
    by simp
  obtain cache1 where c1: "add_to_cache ?c0 0 step_t = Inr cache1"
    by (simp add: add_to_cache_def step_t_def v1_def convert_def zero_times_def)
  have pre: "map_of ?c0 0 = Some [(''obs'', PyList [NDArray (Floating 32) [1]])] \<and>
    map_of [(''obs'', PyList [NDArray (Floating 32) [1]])] ''action'' = None \<and>
    distinct (map fst step_t) \<and> (''action'', v1) \<in> set step_t \<and>
    add_to_cache ?c0 0 step_t = Inr cache1"
    using c1 by (simp add: step_t_def)
  from th pre have B: "\<exists>ep1 z c. map_of cache1 0 = Some ep1 \<and> convert (zero_times v1) 32 = Inr z \<and>
      convert v1 32 = Inr c \<and> map_of ep1 ''action'' = Some (PyList [z, c])"
    by blast
  from A B c1 show ?thesis by blast
qed

text \<open>
  The claim as the specification states it fails: a field that first appears at the third
  call gets two entries, while the other fields have three.
\<close>

theorem add_to_cache_late_field:
  "add_all ([] :: nat cache) 0 [reset_t, reset_t, step_t] =
     Inr [(0, [(''obs'', PyList [NDArray (Floating 32) [1], NDArray (Floating 32) [1],
                                 NDArray (Floating 32) [1]]),
               (''action'', PyList [NDArray (Floating 32) [0], NDArray (Floating 32) [1]])])]
   \<and> clen (PyList [NDArray (Floating 32) [0], NDArray (Floating 32) [1]]) \<noteq> 3"
  by (simp add: add_to_cache_def reset_t_def step_t_def v1_def convert_def zero_times_def
      clen_def)

section \<open>Properties of the window sampler\<close>

subsection \<open>Draws\<close>

lemmas sampler_defs = sample_window_def sample_step_def first_fragment_def stitch_fragment_def
  possible_draw_def probabilities_def first_len_def not_ret_def slice_def set_true_def
  write_through_def is_log_def sublist_code(3) clen_def ones_like_def py_True_def same_rows_def Let_def

lemma sum_list_probabilities_aux:
  "sum_list (map (\<lambda>n. real n / c) ns) = real (sum_list ns) / c"
  by (induction ns) (simp_all add: add_divide_distrib)

lemma sum_list_probabilities: "0 < sum_list ns \<Longrightarrow> sum_list (probabilities ns) = 1"
proof -
  assume "0 < sum_list ns"
  then have "real (sum_list ns) \<noteq> 0" by linarith
  then show ?thesis unfolding probabilities_def sum_list_probabilities_aux by (rule divide_self)
qed

lemma probabilities_proportional:
  "i < length ns \<Longrightarrow> j < length ns \<Longrightarrow>
   probabilities ns ! i * real (ns ! j) = probabilities ns ! j * real (ns ! i)"
  by (simp add: probabilities_def)

lemma totals_nth:
  "totals eps0 = Inr ns \<Longrightarrow>
   length ns = length eps0 \<and> (\<forall>i<length eps0. first_len (eps0 ! i) = Inr (ns ! i))"
proof (induction eps0 arbitrary: ns)
  case Nil
  then show ?case by simp
next
  case (Cons ep rest)
  from Cons.prems obtain n ms where n: "first_len ep = Inr n" and ms: "totals rest = Inr ms"
    and ns: "ns = n # ms" by (auto split: sum.splits)
  from Cons.IH[OF ms] have "length ms = length rest"
    "\<forall>i<length rest. first_len (rest ! i) = Inr (ms ! i)" by auto
  then show ?case using n ns by (auto simp: nth_Cons split: nat.splits)
qed

lemma first_len_update:
  "map_of ep k = Some c \<Longrightarrow> clen c' = clen c \<Longrightarrow> first_len (AList.update k c' ep) = first_len ep"
  by (cases ep) (auto simp: first_len_def split: if_splits)

lemma first_len_write_through: "first_len (write_through ep i) = first_len ep"
proof (cases "map_of ep ''is_first''")
  case None
  then show ?thesis by (simp add: write_through_def)
next
  case (Some c)
  show ?thesis
  proof (cases c)
    case (PyList xs)
    with Some show ?thesis by (simp add: write_through_def)
  next
    case (NdArray xs)
    have "clen (NdArray (xs[i := ones_like (xs ! i)])) = clen c"
      using NdArray by (simp add: clen_def)
    from first_len_update[OF Some this] Some NdArray show ?thesis
      by (simp add: write_through_def)
  qed
qed

lemma first_fragment_episode:
  "first_fragment len ep n i = Inr (w, ep') \<Longrightarrow> ep' = ep \<or> ep' = write_through ep i"
  by (auto simp: first_fragment_def Let_def split: option.splits sum.splits)

lemma sample_step_degenerate:
  "first_len (snd (eps st ! choice d)) = Inr n \<Longrightarrow> n < 2 \<Longrightarrow> sample_step len st d = Inr st"
  by (simp add: sample_step_def)

lemma sample_step_frag_inv:
  assumes "sample_step len st d = Inr st'" and "frag_inv episodes st"
    and "choice d < length (eps st)"
  shows "frag_inv episodes st'"
proof -
  from assms(2) have m: "map (\<lambda>x. first_len (snd x)) (eps st) = map (\<lambda>x. first_len (snd x)) episodes"
    and fr: "\<forall>f\<in>set (fragments st). fst f < length episodes \<and>
        (\<exists>n. first_len (snd (episodes ! fst f)) = Inr n \<and> 2 \<le> n)"
    by (auto simp: frag_inv_def)
  from m have l: "length (eps st) = length episodes" by (rule map_eq_imp_length_eq)
  let ?ep = "snd (eps st ! choice d)"
  from assms(1) obtain n where n: "first_len ?ep = Inr n"
    by (auto simp: sample_step_def Let_def split: sum.splits)
  have same: "first_len (snd (episodes ! choice d)) = Inr n"
    using n assms(3) l nth_map[of "choice d" "eps st" "\<lambda>x. first_len (snd x)"]
      nth_map[of "choice d" episodes "\<lambda>x. first_len (snd x)"] m by simp
  show ?thesis
  proof (cases "n < 2")
    case True
    with assms(1) n have "st' = st" by (simp add: sample_step_def)
    with assms(2) show ?thesis by simp
  next
    case False
    have newf: "choice d < length episodes \<and>
        (\<exists>n. first_len (snd (episodes ! choice d)) = Inr n \<and> 2 \<le> n)"
      using same False assms(3) l by auto
    show ?thesis
    proof (cases "not_ret (ret st)")
      case True
      with assms(1) n False obtain w ep' s where
        ff: "first_fragment len ?ep n (randint d) = Inr (w, ep')"
        and st': "st' = \<lparr>ret = Some w, wsize = s,
                   eps = (eps st)[choice d := (fst (eps st ! choice d), ep')],
                   fragments = fragments st @ [(choice d, wsize st)]\<rparr>"
        by (auto simp: sample_step_def Let_def split: sum.splits prod.splits)
      from first_fragment_episode[OF ff] have "first_len ep' = first_len ?ep"
        by (auto simp: first_len_write_through)
      then have "map (\<lambda>x. first_len (snd x)) (eps st') = map (\<lambda>x. first_len (snd x)) (eps st)"
        unfolding st' using assms(3)
        by (simp add: map_update list_update_same_conv)
      with m fr newf show ?thesis by (auto simp: frag_inv_def st')
    next
      case nr: False
      with assms(1) n False obtain w s where
        st': "st' = \<lparr>ret = Some w, wsize = s, eps = eps st,
                   fragments = fragments st @ [(choice d, wsize st)]\<rparr>"
        by (auto simp: sample_step_def Let_def split: sum.splits prod.splits)
      with m fr newf show ?thesis by (auto simp: frag_inv_def)
    qed
  qed
qed

lemma sample_loop_frag_inv:
  "sample_loop len ns st ds = Some (Inr (st', ds')) \<Longrightarrow> frag_inv episodes st \<Longrightarrow>
   frag_inv episodes st'"
proof (induction ds arbitrary: st)
  case Nil
  then show ?case by (auto split: if_splits)
next
  case (Cons d ds)
  show ?case
  proof (cases "wsize st < len")
    case True
    with Cons.prems(1) obtain st1 where pd: "possible_draw ns st d"
      and step: "sample_step len st d = Inr st1"
      and run: "sample_loop len ns st1 ds = Some (Inr (st', ds'))"
      by (auto split: if_splits sum.splits)
    from pd have "choice d < length (eps st)" by (simp add: possible_draw_def)
    from sample_step_frag_inv[OF step Cons.prems(2) this] have "frag_inv episodes st1" .
    from Cons.IH[OF run this] show ?thesis .
  next
    case False
    with Cons.prems show ?thesis by simp
  qed
qed

text \<open>
  Claim C6. When the lengths of the episodes do not sum to 0, the probabilities that
  \<^verbatim>\<open>sample_episodes\<close> hands to \<^verbatim>\<open>choice\<close> sum to 1 and are proportional to the number
  of entries of each episode. A pass of the loop that draws an episode of fewer than two
  entries returns with the state unchanged, without raising. Every fragment of a yielded
  window comes from an episode of at least two entries.
\<close>

theorem sample_episodes_draws:
  assumes "totals (map snd episodes) = Inr ns" and "0 < sum_list ns"
  shows "sum_list (probabilities ns) = 1 \<and>
    (\<forall>i<length episodes. first_len (snd (episodes ! i)) = Inr (ns ! i) \<and>
       (\<forall>j<length episodes.
          probabilities ns ! i * real (ns ! j) = probabilities ns ! j * real (ns ! i))) \<and>
    (\<forall>st d n. first_len (snd (eps st ! choice d)) = Inr n \<and> n < 2 \<longrightarrow>
       sample_step len (st :: 'k sampling) d = Inr st) \<and>
    (\<forall>w eps' ds' frags. sample_window episodes len ds = Some (Inr (w, eps', ds', frags)) \<longrightarrow>
       (\<forall>f\<in>set frags. fst f < length episodes \<and>
          (\<exists>n. first_len (snd (episodes ! fst f)) = Inr n \<and> 2 \<le> n)))"
proof (intro conjI allI impI)
  show "sum_list (probabilities ns) = 1" using assms(2) by (rule sum_list_probabilities)
next
  fix i assume i: "i < length episodes"
  from totals_nth[OF assms(1)] have l: "length ns = length episodes"
    and t: "\<forall>i<length episodes. first_len (map snd episodes ! i) = Inr (ns ! i)" by auto
  from t i show "first_len (snd (episodes ! i)) = Inr (ns ! i)" by simp
  fix j assume j: "j < length episodes"
  from i j l show "probabilities ns ! i * real (ns ! j) = probabilities ns ! j * real (ns ! i)"
    by (simp add: probabilities_proportional)
next
  fix st :: "'k sampling" and d n
  assume "first_len (snd (eps st ! choice d)) = Inr n \<and> n < 2"
  then show "sample_step len st d = Inr st" by (simp add: sample_step_degenerate)
next
  fix w eps' ds' frags
  assume run: "sample_window episodes len ds = Some (Inr (w, eps', ds', frags))"
  let ?st0 = "\<lparr>ret = None, wsize = 0, eps = episodes, fragments = []\<rparr>"
  from run assms(1) obtain st' where
    loop: "sample_loop len ns ?st0 ds = Some (Inr (st', ds'))" and fr: "frags = fragments st'"
    by (auto simp: sample_window_def split: option.splits sum.splits prod.splits)
  have "frag_inv episodes ?st0" by (simp add: frag_inv_def)
  from sample_loop_frag_inv[OF loop this] fr
  show "\<forall>f\<in>set frags. fst f < length episodes \<and>
          (\<exists>n. first_len (snd (episodes ! fst f)) = Inr n \<and> 2 \<le> n)"
    by (simp add: frag_inv_def)
qed

theorem sample_episodes_draws_witness:
  "totals (map snd mixed) = Inr [1, 3] \<and> sum_list (probabilities [1, 3]) = 1 \<and>
   sample_step 2 \<lparr>ret = None, wsize = 0, eps = mixed, fragments = []\<rparr> (Draw 0 0) =
     Inr \<lparr>ret = None, wsize = 0, eps = mixed, fragments = []\<rparr> \<and>
   (\<exists>w eps' ds'. sample_window mixed 2 [Draw 0 0, Draw 1 1] = Some (Inr (w, eps', ds', [(1, 0)])))"
proof -
  have t: "totals (map snd mixed) = Inr [1, 3]" by (simp add: mixed_def first_len_def clen_def)
  have s: "0 < sum_list [1, 3 :: nat]" by simp
  note th = sample_episodes_draws[OF t s, of 2 "[Draw 0 0, Draw 1 1]"]
  have f: "first_len (snd (eps \<lparr>ret = None, wsize = 0, eps = mixed, fragments = []\<rparr> ! choice (Draw 0 0)))
      = Inr 1 \<and> (1::nat) < 2"
    by (simp add: mixed_def first_len_def clen_def)
  from th f have step: "sample_step 2 \<lparr>ret = None, wsize = 0, eps = mixed, fragments = []\<rparr> (Draw 0 0) =
     Inr \<lparr>ret = None, wsize = 0, eps = mixed, fragments = []\<rparr>" by blast
  have w: "sample_window mixed 2 [Draw 0 0, Draw 1 1] =
    Some (Inr (Some [(''reward'', PyList [num 1, num 2]),
                     (''is_first'', PyList [py_True, flag False])], mixed, [], [(1, 0)]))"
    by (simp add: mixed_def sampler_defs flag_def num_def)
  from th t step w show ?thesis by blast
qed

subsection \<open>The episodes after sampling\<close>

text \<open>
  Claim C9 fails on the code for episodes that hold arrays, as those of
  \<^verbatim>\<open>load_episodes\<close> do: the first fragment is a view, and marking its first entry
  writes the episode. After one window of length 2 starting at index 1, the stored
  \<^verbatim>\<open>is_first\<close> of the episode is true at index 1.
\<close>

theorem sample_episodes_writes_episode:
  "sample_episodes loaded 2 [Draw 0 1] 1 =
    Some (Inr ([Some [(''reward'', NdArray [num 1, num 2]),
                      (''is_first'', NdArray [flag True, flag False])]],
               [(0, [(''reward'', NdArray [num 0, num 1, num 2]),
                     (''is_first'', NdArray [flag True, flag True, flag False])])],
               [[(0, 0)]]))
   \<and> [(0, [(''reward'', NdArray [num 0, num 1, num 2]),
            (''is_first'', NdArray [flag True, flag True, flag False])])] \<noteq> loaded"
  by (simp add: loaded_def sampler_defs flag_def num_def)

subsection \<open>Windows\<close>

lemma clen_slice: "clen (slice v i j) = min (j - i) (clen v - i)"
  by (cases v) (simp_all add: slice_def clen_def)

lemma rows_slice: "rows (slice v i j) = take (j - i) (drop i (rows v))"
  by (cases v) (simp_all add: slice_def)

lemma set_true_Inr:
  assumes "set_true c i = Inr c'"
  shows "i < clen c" and "clen c' = clen c" and "is_true (rows c' ! i)"
    and "\<And>j. j \<noteq> i \<Longrightarrow> rows c' ! j = rows c ! j"
proof -
  from assms show i: "i < clen c" by (auto simp: set_true_def split: if_splits)
  from assms i have c': "c' = (case c of PyList xs \<Rightarrow> PyList (xs[i := py_True])
                | NdArray xs \<Rightarrow> NdArray (xs[i := ones_like (xs ! i)]))"
    by (simp add: set_true_def)
  show "clen c' = clen c" unfolding c' by (cases c) (simp_all add: clen_def)
  show "is_true (rows c' ! i)" unfolding c' using i
    by (cases c) (simp_all add: clen_def is_true_def py_True_def ones_like_def list_all_iff)
  show "\<And>j. j \<noteq> i \<Longrightarrow> rows c' ! j = rows c ! j" unfolding c' by (cases c) simp_all
qed

lemma list_all_update:
  "list_all P al \<Longrightarrow> P (k, v) \<Longrightarrow> list_all P (AList.update k v al)"
  by (induction al) auto

lemma keys_update_mem:
  "k \<in> fst ` set al \<Longrightarrow> map fst (AList.update k v al) = map fst al"
  by (simp add: update_keys)

lemma map_of_is_Some_mem: "map_of al k = Some v \<Longrightarrow> k \<in> fst ` set al"
  by (metis map_of_SomeD fst_conv image_eqI)

lemma wf_episode_update:
  assumes "wf_episode ep" and "map_of ep k = Some c" and "clen c' = clen c"
  shows "wf_episode (AList.update k c' ep)"
proof -
  from assms(1) obtain n where n: "first_len ep = Inr n" "2 \<le> n"
    "list_all (\<lambda>x. clen (snd x) = n) ep" and d: "distinct (map fst ep)"
    by (auto simp: wf_episode_def split: sum.splits)
  from assms(2) have "(k, c) \<in> set ep" by (rule map_of_SomeD)
  with n(3) have "clen c = n" by (auto simp: list_all_iff)
  with assms(3) have "clen (snd (k, c')) = n" by simp
  have la: "list_all (\<lambda>x. clen (snd x) = n) (AList.update k c' ep)"
    using n(3) \<open>clen (snd (k, c')) = n\<close> by (intro list_all_update) auto
  have "distinct (map fst (AList.update k c' ep))" using d by (rule distinct_update)
  with la n first_len_update[OF assms(2,3)] show ?thesis by (simp add: wf_episode_def)
qed

lemma wf_write_through: "wf_episode ep \<Longrightarrow> wf_episode (write_through ep i)"
proof -
  assume wf: "wf_episode ep"
  show ?thesis
  proof (cases "map_of ep ''is_first''")
    case None
    with wf show ?thesis by (simp add: write_through_def)
  next
    case (Some c)
    show ?thesis
    proof (cases c)
      case (PyList xs)
      with Some wf show ?thesis by (simp add: write_through_def)
    next
      case (NdArray xs)
      have "clen (NdArray (xs[i := ones_like (xs ! i)])) = clen c"
        using NdArray by (simp add: clen_def)
      from wf_episode_update[OF wf Some this] Some NdArray show ?thesis
        by (simp add: write_through_def)
    qed
  qed
qed

lemma fields_write_through: "field_names (write_through ep i) = field_names ep"
proof (cases "map_of ep ''is_first''")
  case None
  then show ?thesis by (simp add: write_through_def)
next
  case (Some c)
  then have "''is_first'' \<in> fst ` set ep" by (rule map_of_is_Some_mem)
  then have "map fst (AList.update ''is_first'' v ep) = map fst ep" for v
    by (rule keys_update_mem)
  then have "fst ` set (AList.update ''is_first'' v ep) = fst ` set ep" for v
    by (metis set_map)
  then show ?thesis using Some by (cases c) (simp_all add: write_through_def field_names_def)
qed

lemma wf_episode_len:
  "wf_episode ep \<Longrightarrow> first_len ep = Inr n \<Longrightarrow>
   2 \<le> n \<and> (\<forall>x\<in>set ep. clen (snd x) = n) \<and> distinct (map fst ep)"
  by (simp add: wf_episode_def list_all_iff)

lemma wf_episode_first_len: "wf_episode ep \<Longrightarrow> \<exists>n. first_len ep = Inr n"
  by (auto simp: wf_episode_def split: sum.splits)

lemma first_fragment_props:
  assumes wf: "wf_episode ep" and n: "first_len ep = Inr n" and i: "i + 2 \<le> n"
    and len: "0 < len" and ff: "first_fragment len ep n i = Inr (w, ep')"
  shows "distinct (map fst w)" and "fst ` set w = field_names ep"
    and "list_all (\<lambda>x. clen (snd x) = min len (n - i)) w"
    and "case map_of w ''is_first'' of None \<Rightarrow> True | Some c \<Rightarrow> is_true (rows c ! 0)"
    and "wf_episode ep'" and "field_names ep' = field_names ep"
proof -
  let ?m = "min len (n - i)"
  define ret0 where "ret0 = map (\<lambda>(k, v). (k, slice v i (min (i + len) n)))
                  (filter (\<lambda>(k, v). \<not> is_log k) ep)"
  from wf_episode_len[OF wf n] have cl: "\<And>k v. (k, v) \<in> set ep \<Longrightarrow> clen v = n"
    and d: "distinct (map fst ep)" by auto
  have keys0: "map fst ret0 = filter (\<lambda>k. \<not> is_log k) (map fst ep)"
    unfolding ret0_def by (induction ep) auto
  have d0: "distinct (map fst ret0)" unfolding keys0 using d by simp
  have f0: "fst ` set ret0 = field_names ep"
  proof -
    have "fst ` set ret0 = set (map fst ret0)" by simp
    also have "\<dots> = field_names ep" unfolding keys0 by (auto simp: field_names_def)
    finally show ?thesis .
  qed
  have l0: "list_all (\<lambda>x. clen (snd x) = ?m) ret0"
    unfolding ret0_def list_all_iff using cl by (auto simp: clen_slice)
  have epc: "ep' = ep \<or> ep' = write_through ep i"
    using ff by (auto simp: first_fragment_def Let_def split: option.splits sum.splits)
  from epc wf show "wf_episode ep'" by (auto simp: wf_write_through)
  from epc show "field_names ep' = field_names ep" by (auto simp: fields_write_through)
  show "distinct (map fst w)" "fst ` set w = field_names ep"
    "list_all (\<lambda>x. clen (snd x) = min len (n - i)) w"
    "case map_of w ''is_first'' of None \<Rightarrow> True | Some c \<Rightarrow> is_true (rows c ! 0)"
  proof -
    consider (none) "map_of ret0 ''is_first'' = None" "w = ret0"
      | (some) c c' where "map_of ret0 ''is_first'' = Some c" "set_true c 0 = Inr c'"
          "w = AList.update ''is_first'' c' ret0"
      using ff unfolding first_fragment_def ret0_def[symmetric] Let_def
      by (auto split: option.splits sum.splits)
    then have "distinct (map fst w) \<and> fst ` set w = field_names ep \<and>
      list_all (\<lambda>x. clen (snd x) = min len (n - i)) w \<and>
      (case map_of w ''is_first'' of None \<Rightarrow> True | Some c \<Rightarrow> is_true (rows c ! 0))"
    proof cases
      case none
      with d0 f0 l0 show ?thesis by simp
    next
      case some
      from some(1) have mem: "''is_first'' \<in> fst ` set ret0" by (rule map_of_is_Some_mem)
      from some(1) have "(''is_first'', c) \<in> set ret0" by (rule map_of_SomeD)
      with l0 have "clen c = ?m" by (auto simp: list_all_iff)
      with set_true_Inr[OF some(2)] have c': "clen c' = ?m" "is_true (rows c' ! 0)" by auto
      have k: "map fst w = map fst ret0" unfolding some(3) using mem by (rule keys_update_mem)
      have "fst ` set w = fst ` set ret0" using k by (metis set_map)
      moreover have "list_all (\<lambda>x. clen (snd x) = ?m) w"
        unfolding some(3) using l0 c'(1) by (intro list_all_update) auto
      moreover have "map_of w ''is_first'' = Some c'" unfolding some(3) by (simp add: update_conv')
      ultimately show ?thesis using k d0 f0 c'(2) by simp
    qed
    then show "distinct (map fst w)" "fst ` set w = field_names ep"
      "list_all (\<lambda>x. clen (snd x) = min len (n - i)) w"
      "case map_of w ''is_first'' of None \<Rightarrow> True | Some c \<Rightarrow> is_true (rows c ! 0)"
      by blast+
  qed
qed

lemma stitch_fields_props:
  assumes "stitch_fields w possible n ep = Inr w'"
  shows "map fst w' = filter (\<lambda>k. \<not> is_log k) (map fst ep) \<and>
    (\<forall>x\<in>set w'. \<exists>r v. map_of w (fst x) = Some r \<and> (fst x, v) \<in> set ep \<and>
        snd x = NdArray (rows r @ rows (slice v 0 (min (0 + possible) n))))"
  using assms
proof (induction ep arbitrary: w')
  case Nil
  then show ?case by simp
next
  case (Cons a ep)
  obtain k v where a: "a = (k, v)" by (cases a)
  show ?case
  proof (cases "is_log k")
    case True
    with Cons.prems a have "stitch_fields w possible n ep = Inr w'" by simp
    from Cons.IH[OF this] have ih1: "map fst w' = filter (\<lambda>k. \<not> is_log k) (map fst ep)"
      and ih2: "\<forall>x\<in>set w'. \<exists>r v. map_of w (fst x) = Some r \<and> (fst x, v) \<in> set ep \<and>
        snd x = NdArray (rows r @ rows (slice v 0 (min (0 + possible) n)))" by blast+
    have "map fst w' = filter (\<lambda>k. \<not> is_log k) (map fst (a # ep))"
      using ih1 a True by simp
    moreover have "\<forall>x\<in>set w'. \<exists>r v. map_of w (fst x) = Some r \<and> (fst x, v) \<in> set (a # ep) \<and>
        snd x = NdArray (rows r @ rows (slice v 0 (min (0 + possible) n)))"
    proof
      fix x assume "x \<in> set w'"
      with ih2 obtain r' v' where "map_of w (fst x) = Some r'" "(fst x, v') \<in> set ep"
          "snd x = NdArray (rows r' @ rows (slice v' 0 (min (0 + possible) n)))" by blast
      then show "\<exists>r v. map_of w (fst x) = Some r \<and> (fst x, v) \<in> set (a # ep) \<and>
        snd x = NdArray (rows r @ rows (slice v 0 (min (0 + possible) n)))" by auto
    qed
    ultimately show ?thesis by blast
  next
    case False
    with Cons.prems a obtain r w1 where r: "map_of w k = Some r"
      and w1: "stitch_fields w possible n ep = Inr w1"
      and w': "w' = (k, NdArray (rows r @ rows (slice v 0 (min (0 + possible) n)))) # w1"
      by (auto split: option.splits sum.splits if_splits)
    from Cons.IH[OF w1] have ih1: "map fst w1 = filter (\<lambda>k. \<not> is_log k) (map fst ep)"
      and ih2: "\<forall>x\<in>set w1. \<exists>r v. map_of w (fst x) = Some r \<and> (fst x, v) \<in> set ep \<and>
        snd x = NdArray (rows r @ rows (slice v 0 (min (0 + possible) n)))" by blast+
    have "map fst w' = filter (\<lambda>k. \<not> is_log k) (map fst (a # ep))"
      using ih1 w' a False by simp
    moreover have "\<forall>x\<in>set w'. \<exists>r v. map_of w (fst x) = Some r \<and> (fst x, v) \<in> set (a # ep) \<and>
        snd x = NdArray (rows r @ rows (slice v 0 (min (0 + possible) n)))"
    proof
      fix x assume "x \<in> set w'"
      then consider "x = (k, NdArray (rows r @ rows (slice v 0 (min (0 + possible) n))))"
        | "x \<in> set w1" using w' by auto
      then show "\<exists>r v. map_of w (fst x) = Some r \<and> (fst x, v) \<in> set (a # ep) \<and>
        snd x = NdArray (rows r @ rows (slice v 0 (min (0 + possible) n)))"
      proof cases
        case 1
        with r a show ?thesis by auto
      next
        case 2
        with ih2 obtain r' v' where "map_of w (fst x) = Some r'" "(fst x, v') \<in> set ep"
          "snd x = NdArray (rows r' @ rows (slice v' 0 (min (0 + possible) n)))" by blast
        then show ?thesis by auto
      qed
    qed
    ultimately show ?thesis by blast
  qed
qed

lemma first_len_all:
  "first_len w = Inr s \<Longrightarrow> list_all (\<lambda>x. clen (snd x) = m) w \<Longrightarrow> s = m \<and> w \<noteq> []"
  by (cases w) (auto simp: first_len_def)

lemma stitch_fragment_props:
  assumes wf: "wf_episode ep" and n: "first_len ep = Inr n"
    and w: "distinct (map fst w)" "list_all (\<lambda>x. clen (snd x) = s) w" "0 < s" "s < len"
    and fl: "case map_of w ''is_first'' of None \<Rightarrow> True
             | Some c \<Rightarrow> is_true (rows c ! 0) \<and>
                 list_all (\<lambda>f. snd f < s \<and> is_true (rows c ! snd f)) frs"
    and sf: "stitch_fragment len w s ep n = Inr w2"
  shows "distinct (map fst w2)" and "fst ` set w2 = field_names ep"
    and "list_all (\<lambda>x. clen (snd x) = s + min (len - s) n) w2"
    and "case map_of w2 ''is_first'' of None \<Rightarrow> True
         | Some c \<Rightarrow> is_true (rows c ! 0) \<and>
             list_all (\<lambda>f. snd f < s + min (len - s) n \<and> is_true (rows c ! snd f))
               (frs @ [(i, s)])"
proof -
  let ?s' = "s + min (len - s) n"
  from wf_episode_len[OF wf n] have n2: "2 \<le> n"
    and cl: "\<And>k v. (k, v) \<in> set ep \<Longrightarrow> clen v = n"
    and d: "distinct (map fst ep)" by auto
  from sf obtain w' where w': "stitch_fields w (len - s) n ep = Inr w'"
    by (auto simp: stitch_fragment_def Let_def split: sum.splits)
  from stitch_fields_props[OF w'] have keys: "map fst w' = filter (\<lambda>k. \<not> is_log k) (map fst ep)"
    and each: "\<forall>x\<in>set w'. \<exists>r v. map_of w (fst x) = Some r \<and> (fst x, v) \<in> set ep \<and>
        snd x = NdArray (rows r @ rows (slice v 0 (min (0 + (len - s)) n)))" by blast+
  have d': "distinct (map fst w')" unfolding keys using d by simp
  have f': "fst ` set w' = field_names ep"
  proof -
    have "fst ` set w' = set (map fst w')" by simp
    also have "\<dots> = field_names ep" unfolding keys by (auto simp: field_names_def)
    finally show ?thesis .
  qed
  have wlen: "clen r = s" if "map_of w k = Some r" for k r
  proof -
    from that have "(k, r) \<in> set w" by (rule map_of_SomeD)
    with w(2) show ?thesis by (auto simp: list_all_iff)
  qed
  have l': "list_all (\<lambda>x. clen (snd x) = ?s') w'"
    unfolding list_all_iff
  proof
    fix x assume "x \<in> set w'"
    with each obtain r v where r: "map_of w (fst x) = Some r" and v: "(fst x, v) \<in> set ep"
      and x: "snd x = NdArray (rows r @ rows (slice v 0 (min (0 + (len - s)) n)))" by blast
    have "length (rows r) = s" using wlen[OF r] by (simp add: clen_def)
    moreover have "length (rows v) = n" using cl[OF v] by (simp add: clen_def)
    ultimately show "clen (snd x) = ?s'" unfolding x by (simp add: clen_def rows_slice)
  qed
  consider (none) "map_of w' ''is_first'' = None" "w2 = w'"
    | (some) c c2 where "map_of w' ''is_first'' = Some c" "set_true c s = Inr c2"
        "w2 = AList.update ''is_first'' c2 w'"
    using sf w' by (auto simp: stitch_fragment_def Let_def split: option.splits sum.splits)
  then have "distinct (map fst w2) \<and> fst ` set w2 = field_names ep \<and>
    list_all (\<lambda>x. clen (snd x) = ?s') w2 \<and>
    (case map_of w2 ''is_first'' of None \<Rightarrow> True
         | Some c \<Rightarrow> is_true (rows c ! 0) \<and>
             list_all (\<lambda>f. snd f < ?s' \<and> is_true (rows c ! snd f)) (frs @ [(i, s)]))"
  proof cases
    case none
    with d' f' l' show ?thesis by simp
  next
    case some
    from some(1) have mem: "(''is_first'', c) \<in> set w'" by (rule map_of_SomeD)
    with each obtain r v where r: "map_of w ''is_first'' = Some r"
      and c: "c = NdArray (rows r @ rows (slice v 0 (min (0 + (len - s)) n)))" by force
    have lr: "length (rows r) = s" using wlen[OF r] by (simp add: clen_def)
    from fl r have r0: "is_true (rows r ! 0)"
      and rf: "list_all (\<lambda>f. snd f < s \<and> is_true (rows r ! snd f)) frs" by auto
    have low: "rows c ! j = rows r ! j" if "j < s" for j
      unfolding c using that lr by (simp add: nth_append)
    from mem l' have "clen c = ?s'" by (auto simp: list_all_iff)
    with set_true_Inr[OF some(2)] have c2: "s < ?s'" "clen c2 = ?s'" "is_true (rows c2 ! s)"
      and oth: "\<And>j. j \<noteq> s \<Longrightarrow> rows c2 ! j = rows c ! j" by auto
    have keep: "rows c2 ! j = rows r ! j" if "j < s" for j
      using oth[of j] low[OF that] that by simp
    have k: "map fst w2 = map fst w'" unfolding some(3)
      using map_of_is_Some_mem[OF some(1)] by (rule keys_update_mem)
    have fs: "fst ` set w2 = fst ` set w'" using k by (metis set_map)
    have la: "list_all (\<lambda>x. clen (snd x) = ?s') w2"
      unfolding some(3) using l' c2(2) by (intro list_all_update) auto
    have m2: "map_of w2 ''is_first'' = Some c2" unfolding some(3) by (simp add: update_conv')
    have t0: "is_true (rows c2 ! 0)" using keep[OF w(3)] r0 by simp
    have tf: "list_all (\<lambda>f. snd f < ?s' \<and> is_true (rows c2 ! snd f)) frs"
      unfolding list_all_iff
    proof
      fix f assume "f \<in> set frs"
      with rf have "snd f < s" "is_true (rows r ! snd f)" by (auto simp: list_all_iff)
      with keep[of "snd f"] c2(1) show "snd f < ?s' \<and> is_true (rows c2 ! snd f)" by simp
    qed
    have "list_all (\<lambda>f. snd f < ?s' \<and> is_true (rows c2 ! snd f)) (frs @ [(i, s)])"
      using tf c2(1,3) by simp
    with k d' fs f' la m2 t0 show ?thesis by simp
  qed
  then show "distinct (map fst w2)" "fst ` set w2 = field_names ep"
    "list_all (\<lambda>x. clen (snd x) = ?s') w2"
    "case map_of w2 ''is_first'' of None \<Rightarrow> True
         | Some c \<Rightarrow> is_true (rows c ! 0) \<and>
             list_all (\<lambda>f. snd f < ?s' \<and> is_true (rows c ! snd f)) (frs @ [(i, s)])"
    by blast+
qed

lemma list_all_list_update:
  "list_all P xs \<Longrightarrow> P y \<Longrightarrow> list_all P (xs[i := y])"
  unfolding list_all_iff using set_update_subset_insert[of xs i y] by auto

lemma list_all_nth: "list_all P xs \<Longrightarrow> i < length xs \<Longrightarrow> P (xs ! i)"
  by (simp add: list_all_iff)

lemma window_inv_SomeI:
  "list_all (\<lambda>x. wf_episode (snd x)) e \<Longrightarrow> w \<noteq> [] \<Longrightarrow> distinct (map fst w) \<Longrightarrow>
   0 < s \<Longrightarrow> s \<le> len \<Longrightarrow> list_all (\<lambda>x. clen (snd x) = s) w \<Longrightarrow>
   (case map_of w ''is_first'' of None \<Rightarrow> True
    | Some c \<Rightarrow> is_true (rows c ! 0) \<and> list_all (\<lambda>f. snd f < s \<and> is_true (rows c ! snd f)) frs) \<Longrightarrow>
   window_inv len \<lparr>ret = Some w, wsize = s, eps = e, fragments = frs\<rparr>"
  by (simp add: window_inv_def cong: option.case_cong)

lemma sample_step_inv:
  assumes inv: "window_inv len st" and lt: "wsize st < len" and pd: "possible_draw ns st d"
    and step: "sample_step len st d = Inr st'"
  shows "window_inv len st' \<and> wsize st < wsize st'"
proof -
  let ?ep = "snd (eps st ! choice d)"
  let ?key = "fst (eps st ! choice d)"
  from pd have c: "choice d < length (eps st)" by (simp add: possible_draw_def)
  from inv have wfall: "list_all (\<lambda>x. wf_episode (snd x)) (eps st)" by (simp add: window_inv_def)
  from list_all_nth[OF wfall c] have wf: "wf_episode ?ep" .
  from wf_episode_first_len[OF wf] obtain n where n: "first_len ?ep = Inr n" by blast
  from wf_episode_len[OF wf n] have n2: "2 \<le> n" by simp
  from lt have lenpos: "0 < len" by simp
  show ?thesis
  proof (cases "ret st")
    case None
    with inv have s0: "wsize st = 0" and f0: "fragments st = []" by (simp_all add: window_inv_def)
    from None have nr: "not_ret (ret st)" by (simp add: not_ret_def)
    from pd n n2 nr have i: "randint d + 2 \<le> n" by (auto simp: possible_draw_def)
    from step n n2 nr obtain w ep' s where
      ff: "first_fragment len ?ep n (randint d) = Inr (w, ep')" and s: "first_len w = Inr s"
      and st': "st' = \<lparr>ret = Some w, wsize = s, eps = (eps st)[choice d := (?key, ep')],
                       fragments = fragments st @ [(choice d, wsize st)]\<rparr>"
      by (auto simp: sample_step_def Let_def split: sum.splits prod.splits)
    note p = first_fragment_props[OF wf n i lenpos ff]
    from first_len_all[OF s p(3)] have sv: "s = min len (n - randint d)" and wne: "w \<noteq> []" by auto
    from sv i lenpos have spos: "0 < s" and sle: "s \<le> len" by auto
    have e: "list_all (\<lambda>x. wf_episode (snd x)) ((eps st)[choice d := (?key, ep')])"
      using wfall p(5) by (intro list_all_list_update) simp_all
    have fl: "case map_of w ''is_first'' of None \<Rightarrow> True
      | Some c \<Rightarrow> is_true (rows c ! 0) \<and>
          list_all (\<lambda>f. snd f < s \<and> is_true (rows c ! snd f)) (fragments st @ [(choice d, wsize st)])"
      using p(4) spos s0 f0 by (auto split: option.splits)
    have wi: "window_inv len st'"
      unfolding st' using e wne p(1) spos sle p(3)[folded sv] fl by (rule window_inv_SomeI)
    from wi spos s0 st' show ?thesis by simp
  next
    case (Some w0)
    with inv have w0: "w0 \<noteq> []" "distinct (map fst w0)" "0 < wsize st"
      "list_all (\<lambda>x. clen (snd x) = wsize st) w0"
      and fl0: "case map_of w0 ''is_first'' of None \<Rightarrow> True
        | Some c \<Rightarrow> is_true (rows c ! 0) \<and>
            list_all (\<lambda>f. snd f < wsize st \<and> is_true (rows c ! snd f)) (fragments st)"
      by (simp_all add: window_inv_def)
    from Some w0(1) have nr: "\<not> not_ret (ret st)" by (simp add: not_ret_def)
    from step n n2 nr Some obtain w2 s where
      sf: "stitch_fragment len w0 (wsize st) ?ep n = Inr w2" and s: "first_len w2 = Inr s"
      and st': "st' = \<lparr>ret = Some w2, wsize = s, eps = eps st,
                       fragments = fragments st @ [(choice d, wsize st)]\<rparr>"
      by (auto simp: sample_step_def Let_def split: sum.splits prod.splits)
    note p = stitch_fragment_props[OF wf n w0(2) w0(4) w0(3) lt fl0 sf]
    from first_len_all[OF s p(3)] have sv: "s = wsize st + min (len - wsize st) n"
      and wne: "w2 \<noteq> []" by auto
    from sv lt n2 have sgt: "wsize st < s" and sle: "s \<le> len" by auto
    have spos: "0 < s" using sgt by simp
    have wi: "window_inv len st'"
      unfolding st' using wfall wne p(1) spos sle p(3)[folded sv] p(4)[folded sv]
      by (rule window_inv_SomeI)
    from wi sgt st' show ?thesis by simp
  qed
qed

lemma sample_loop_inv:
  "sample_loop len ns st ds = Some (Inr (st', ds')) \<Longrightarrow> window_inv len st \<Longrightarrow>
   window_inv len st' \<and> \<not> wsize st' < len"
proof (induction ds arbitrary: st)
  case Nil
  then show ?case by (auto split: if_splits)
next
  case (Cons d ds)
  show ?case
  proof (cases "wsize st < len")
    case True
    with Cons.prems(1) obtain st1 where pd: "possible_draw ns st d"
      and step: "sample_step len st d = Inr st1"
      and run: "sample_loop len ns st1 ds = Some (Inr (st', ds'))"
      by (auto split: if_splits sum.splits)
    from sample_step_inv[OF Cons.prems(2) True pd step] have "window_inv len st1" by simp
    from Cons.IH[OF run this] show ?thesis .
  next
    case False
    with Cons.prems show ?thesis by simp
  qed
qed


lemma sample_window_inv:
  assumes wf: "\<forall>x\<in>set episodes. wf_episode (snd x)" and len: "0 < len"
    and run: "sample_window episodes len ds = Some (Inr (w, eps', ds', frags))"
  shows "(\<forall>x\<in>set eps'. wf_episode (snd x)) \<and>
    (\<exists>win. w = Some win \<and> (\<forall>x\<in>set win. clen (snd x) = len) \<and>
       (\<forall>c. map_of win ''is_first'' = Some c \<longrightarrow>
          is_true (rows c ! 0) \<and> (\<forall>f\<in>set frags. snd f < len \<and> is_true (rows c ! snd f))))"
proof -
  let ?st0 = "\<lparr>ret = None, wsize = 0, eps = episodes, fragments = []\<rparr>"
  have wi0: "window_inv len ?st0" using wf by (simp add: window_inv_def list_all_iff)
  from run obtain ns st' where
    loop: "sample_loop len ns ?st0 ds = Some (Inr (st', ds'))"
    and w: "w = ret st'" and fr: "frags = fragments st'" and e: "eps' = eps st'"
    by (auto simp: sample_window_def split: option.splits sum.splits prod.splits)
  from sample_loop_inv[OF loop wi0] have wi: "window_inv len st'" and ge: "\<not> wsize st' < len"
    by simp_all
  from wi e have wf': "\<forall>x\<in>set eps'. wf_episode (snd x)"
    by (simp add: window_inv_def list_all_iff)
  have "\<exists>win. w = Some win \<and> (\<forall>x\<in>set win. clen (snd x) = len) \<and>
        (\<forall>c. map_of win ''is_first'' = Some c \<longrightarrow>
           is_true (rows c ! 0) \<and> (\<forall>f\<in>set frags. snd f < len \<and> is_true (rows c ! snd f)))"
  proof (cases "ret st'")
    case None
    with wi have "wsize st' = 0" by (simp add: window_inv_def)
    with ge len show ?thesis by simp
  next
    case (Some win)
    with wi have le: "wsize st' \<le> len"
      and la: "list_all (\<lambda>x. clen (snd x) = wsize st') win"
      and fl: "case map_of win ''is_first'' of None \<Rightarrow> True
         | Some c \<Rightarrow> is_true (rows c ! 0) \<and>
             list_all (\<lambda>f. snd f < wsize st' \<and> is_true (rows c ! snd f)) (fragments st')"
      by (simp_all add: window_inv_def)
    from le ge have eq: "wsize st' = len" by simp
    have "\<forall>x\<in>set win. clen (snd x) = len" using la eq by (simp add: list_all_iff)
    moreover have "\<forall>c. map_of win ''is_first'' = Some c \<longrightarrow>
           is_true (rows c ! 0) \<and> (\<forall>f\<in>set frags. snd f < len \<and> is_true (rows c ! snd f))"
    proof (intro allI impI)
      fix c assume c: "map_of win ''is_first'' = Some c"
      with fl have c0: "is_true (rows c ! 0)"
        and cf: "list_all (\<lambda>f. snd f < wsize st' \<and> is_true (rows c ! snd f)) (fragments st')"
        by simp_all
      from cf have "\<forall>f\<in>set frags. snd f < len \<and> is_true (rows c ! snd f)"
        unfolding fr eq[symmetric] list_all_iff .
      with c0 show "is_true (rows c ! 0) \<and> (\<forall>f\<in>set frags. snd f < len \<and> is_true (rows c ! snd f))"
        by (rule conjI)
    qed
    ultimately show ?thesis using Some w by simp
  qed
  with wf' show ?thesis by (rule conjI)
qed

text \<open>
  Claim C3, as the code has it. The claim asks only that every episode has at least two
  entries; the code measures an episode by its first field, so the property needs episodes
  whose fields all have one length. For episodes with distinct field names whose fields
  all have one length of at least two, and a positive \<^verbatim>\<open>length\<close>: each of the first
  \<open>n\<close> windows that \<^verbatim>\<open>sample_episodes\<close> yields, for every \<open>n\<close>, has exactly
  \<^verbatim>\<open>length\<close> entries in every field, and its \<^verbatim>\<open>is_first\<close> field, when present, is
  true at index 0 and at every index where a fragment was attached.
\<close>

theorem sample_episodes_window:
  assumes wf: "\<forall>x\<in>set episodes. wf_episode (snd x)" and len: "0 < len"
    and run: "sample_episodes episodes len ds n = Some (Inr (ws, eps', frs))"
  shows "length ws = n \<and> length frs = n \<and>
    (\<forall>i<n. \<exists>win. ws ! i = Some win \<and> (\<forall>x\<in>set win. clen (snd x) = len) \<and>
       (\<forall>c. map_of win ''is_first'' = Some c \<longrightarrow>
          is_true (rows c ! 0) \<and>
          (\<forall>f\<in>set (frs ! i). snd f < len \<and> is_true (rows c ! snd f))))"
  using wf run
proof (induction n arbitrary: episodes ds ws frs)
  case 0
  then show ?case by simp
next
  case (Suc n)
  from Suc.prems(2) obtain w e1 ds1 fr ws1 frs1 where
    sw: "sample_window episodes len ds = Some (Inr (w, e1, ds1, fr))"
    and rest: "sample_episodes e1 len ds1 n = Some (Inr (ws1, eps', frs1))"
    and ws: "ws = w # ws1" and frs: "frs = fr # frs1"
    by (auto split: option.splits sum.splits prod.splits)
  from sample_window_inv[OF Suc.prems(1) len sw]
  have wf1: "\<forall>x\<in>set e1. wf_episode (snd x)"
    and good: "\<exists>win. w = Some win \<and> (\<forall>x\<in>set win. clen (snd x) = len) \<and>
       (\<forall>c. map_of win ''is_first'' = Some c \<longrightarrow>
          is_true (rows c ! 0) \<and> (\<forall>f\<in>set fr. snd f < len \<and> is_true (rows c ! snd f)))"
    by simp_all
  from Suc.IH[OF wf1 rest] have l: "length ws1 = n" "length frs1 = n"
    and ih: "\<forall>i<n. \<exists>win. ws1 ! i = Some win \<and> (\<forall>x\<in>set win. clen (snd x) = len) \<and>
       (\<forall>c. map_of win ''is_first'' = Some c \<longrightarrow>
          is_true (rows c ! 0) \<and>
          (\<forall>f\<in>set (frs1 ! i). snd f < len \<and> is_true (rows c ! snd f)))"
    by simp_all
  have "\<forall>i<Suc n. \<exists>win. ws ! i = Some win \<and> (\<forall>x\<in>set win. clen (snd x) = len) \<and>
       (\<forall>c. map_of win ''is_first'' = Some c \<longrightarrow>
          is_true (rows c ! 0) \<and>
          (\<forall>f\<in>set (frs ! i). snd f < len \<and> is_true (rows c ! snd f)))"
  proof (intro allI impI)
    fix i assume i: "i < Suc n"
    show "\<exists>win. ws ! i = Some win \<and> (\<forall>x\<in>set win. clen (snd x) = len) \<and>
       (\<forall>c. map_of win ''is_first'' = Some c \<longrightarrow>
          is_true (rows c ! 0) \<and>
          (\<forall>f\<in>set (frs ! i). snd f < len \<and> is_true (rows c ! snd f)))"
    proof (cases i)
      case 0
      with good ws frs show ?thesis by simp
    next
      case (Suc j)
      with i have "j < n" by simp
      with ih Suc ws frs show ?thesis by simp
    qed
  qed
  with l ws frs show ?case by simp
qed

theorem sample_episodes_window_witness:
  "list_all (\<lambda>x. wf_episode (snd x)) pair \<and>
   (\<exists>w0 w1 eps'.
      sample_episodes pair 4 [Draw 0 1, Draw 1 0, Draw 1 0, Draw 0 0] 2 =
        Some (Inr ([Some w0, Some w1], eps', [[(0, 0), (1, 2)], [(1, 0), (0, 2)]])) \<and>
      list_all (\<lambda>x. clen (snd x) = 4) w0 \<and> list_all (\<lambda>x. clen (snd x) = 4) w1 \<and>
      (\<exists>c. map_of w1 ''is_first'' = Some c \<and> is_true (rows c ! 0) \<and> is_true (rows c ! 2)))"
proof -
  let ?ds = "[Draw 0 1, Draw 1 0, Draw 1 0, Draw 0 0]"
  let ?w0 = "[(''reward'', NdArray [num 1, num 2, num 3, num 4]),
              (''is_first'', NdArray [py_True, flag False, flag True, flag False])]"
  let ?w1 = "[(''reward'', NdArray [num 3, num 4, num 0, num 1]),
              (''is_first'', NdArray [flag True, flag False, py_True, flag False])]"
  let ?frs = "[[(0::nat, 0::nat), (1, 2)], [(1, 0), (0, 2)]]"
  have wf: "\<forall>x\<in>set pair. wf_episode (snd x)"
    by (simp add: pair_def wf_episode_def first_len_def clen_def)
  have len: "(0::nat) < 4" by simp
  have ev: "sample_episodes pair 4 ?ds 2 = Some (Inr ([Some ?w0, Some ?w1], pair, ?frs))"
    by (simp add: numeral_2_eq_2 pair_def sampler_defs flag_def num_def)
  note th = sample_episodes_window[OF wf len ev]
  from th have a: "\<forall>i<2. \<exists>win. [Some ?w0, Some ?w1] ! i = Some win \<and>
       (\<forall>x\<in>set win. clen (snd x) = 4) \<and>
       (\<forall>c. map_of win ''is_first'' = Some c \<longrightarrow>
          is_true (rows c ! 0) \<and> (\<forall>f\<in>set (?frs ! i). snd f < 4 \<and> is_true (rows c ! snd f)))"
    by blast
  from a[rule_format, of 0] have A: "\<forall>x\<in>set ?w0. clen (snd x) = 4" by simp
  from a[rule_format, of 1] have B: "\<forall>x\<in>set ?w1. clen (snd x) = 4"
    and C: "\<forall>c. map_of ?w1 ''is_first'' = Some c \<longrightarrow>
          is_true (rows c ! 0) \<and>
          (\<forall>f\<in>set [(1::nat, 0::nat), (0, 2)]. snd f < 4 \<and> is_true (rows c ! snd f))"
    by simp_all
  have m: "map_of ?w1 ''is_first'' = Some (NdArray [flag True, flag False, py_True, flag False])"
    by simp
  from C m have "is_true (rows (NdArray [flag True, flag False, py_True, flag False]) ! 0) \<and>
    is_true (rows (NdArray [flag True, flag False, py_True, flag False]) ! 2)"
    by force
  with A B m ev wf show ?thesis unfolding list_all_iff by blast
qed

text \<open>
  The claim as the specification states it fails on an episode whose fields differ in
  length, as \<^verbatim>\<open>add_to_cache\<close> builds one when a field first appears at the third
  call: both fields have at least two entries, the window of length 3 is cut to the length
  of the first field, and its second field has two entries.
\<close>

theorem sample_episodes_ragged_window:
  "add_all ([] :: nat cache) 0 [reset_t, reset_t, step_t] = Inr late \<and>
   list_all (\<lambda>x. 2 \<le> clen (snd x)) (snd (late ! 0)) \<and>
   sample_episodes late 3 [Draw 0 0] 1 =
     Some (Inr ([Some [(''obs'', PyList [NDArray (Floating 32) [1], NDArray (Floating 32) [1],
                                        NDArray (Floating 32) [1]]),
                      (''action'', PyList [NDArray (Floating 32) [0], NDArray (Floating 32) [1]])]],
                late, [[(0, 0)]])) \<and>
   clen (PyList [NDArray (Floating 32) [0], NDArray (Floating 32) [1]]) \<noteq> 3"
  by (simp add: late_def add_to_cache_def reset_t_def step_t_def v1_def convert_def zero_times_def
      sampler_defs)

section \<open>The return estimator: proofs\<close>

subsection \<open>The operations on tensors of the shape \<open>[T, B, 1]\<close>\<close>

lemma shape_emb1 [simp]: "shape (emb1 x) = [1]" by (simp add: emb1_def)
lemma shape_emb2 [simp]: "shape (emb2 xs) = [length xs, 1]" by (simp add: emb2_def)
lemma shape_emb3 [simp]: "shape (emb3 B xss) = [length xss, B, 1]" by (simp add: emb3_def)

lemma broadcast_rev_same: "broadcast_rev xs xs = Some xs"
  by (induction xs) auto

lemma broadcast_shapes_same: "broadcast_shapes s s = Some s"
  by (simp add: broadcast_shapes_def broadcast_rev_same)

lemma map_upt_nth2:
  "length xs = n \<Longrightarrow> length ys = n \<Longrightarrow>
   map (\<lambda>i. g (xs ! i) (ys ! i)) [0..<n] = map (\<lambda>(x, y). g x y) (zip xs ys)"
  by (rule nth_equalityI) auto

lemma sel_emb1: "sel (emb1 x) (Suc 0) i = Scalar x"
  by (simp add: sel_def emb1_def)

lemma the_scalar_Scalar: "the_scalar (Scalar x) = x"
  by (simp add: the_scalar_def)

lemma sel_emb2: "i < length u \<Longrightarrow> sel (emb2 u) (Suc (Suc 0)) i = emb1 (u ! i)"
  by (auto simp: sel_def emb2_def)

lemma sel_emb3: "i < length a \<Longrightarrow> sel (emb3 B a) (Suc (Suc (Suc 0))) i = emb2 (a ! i)"
  by (auto simp: sel_def emb3_def)

lemma bop_sh_emb1: "bop_sh f [Suc 0] (emb1 x) (emb1 y) = emb1 (f x y)"
  by (simp add: sel_emb1 the_scalar_Scalar) (simp add: emb1_def)

lemma bop_sh_emb2:
  assumes "length u = B" "length v = B"
  shows "bop_sh f [B, Suc 0] (emb2 u) (emb2 v) = emb2 (map (\<lambda>(x, y). f x y) (zip u v))"
proof -
  have "bop_sh f [B, Suc 0] (emb2 u) (emb2 v)
      = Tensor (map (\<lambda>i. bop_sh f [Suc 0] (sel (emb2 u) (Suc (Suc 0)) i)
                               (sel (emb2 v) (Suc (Suc 0)) i)) [0..<B]) [Suc 0]"
    by (simp del: bop_sh.simps add: bop_sh.simps(2)[of f B "[Suc 0]"])
  also have "map (\<lambda>i. bop_sh f [Suc 0] (sel (emb2 u) (Suc (Suc 0)) i)
                               (sel (emb2 v) (Suc (Suc 0)) i)) [0..<B]
        = map (\<lambda>i. emb1 (f (u ! i) (v ! i))) [0..<B]"
    using assms by (intro map_cong refl) (simp del: bop_sh.simps add: sel_emb2 bop_sh_emb1)
  also have "\<dots> = map (\<lambda>(x, y). emb1 (f x y)) (zip u v)"
    using assms by (rule map_upt_nth2)
  finally show ?thesis by (simp add: emb2_def case_prod_beta comp_def)
qed

lemma bop_sh_emb3:
  assumes "length a = T" "length b = T"
    and "\<forall>r\<in>set a. length r = B" and "\<forall>r\<in>set b. length r = B"
  shows "bop_sh f [T, B, Suc 0] (emb3 B a) (emb3 B b) =
    emb3 B (map (\<lambda>(u, v). map (\<lambda>(x, y). f x y) (zip u v)) (zip a b))"
proof -
  have "bop_sh f [T, B, Suc 0] (emb3 B a) (emb3 B b)
      = Tensor (map (\<lambda>i. bop_sh f [B, Suc 0] (sel (emb3 B a) (Suc (Suc (Suc 0))) i)
                                  (sel (emb3 B b) (Suc (Suc (Suc 0))) i)) [0..<T]) [B, Suc 0]"
    by (simp del: bop_sh.simps add: bop_sh.simps(2)[of f T "[B, Suc 0]"])
  also have "map (\<lambda>i. bop_sh f [B, Suc 0] (sel (emb3 B a) (Suc (Suc (Suc 0))) i)
                                  (sel (emb3 B b) (Suc (Suc (Suc 0))) i)) [0..<T]
        = map (\<lambda>i. emb2 (map (\<lambda>(x, y). f x y) (zip (a ! i) (b ! i)))) [0..<T]"
  proof (intro map_cong refl)
    fix i assume "i \<in> set [0..<T]"
    then have i: "i < T" by simp
    with assms have "length (a ! i) = B" "length (b ! i) = B" by auto
    then show "bop_sh f [B, Suc 0] (sel (emb3 B a) (Suc (Suc (Suc 0))) i)
                                  (sel (emb3 B b) (Suc (Suc (Suc 0))) i)
       = emb2 (map (\<lambda>(x, y). f x y) (zip (a ! i) (b ! i)))"
      using i assms(1,2) by (simp del: bop_sh.simps add: sel_emb3 bop_sh_emb2)
  qed
  also have "\<dots> = map (\<lambda>(u, v). emb2 (map (\<lambda>(x, y). f x y) (zip u v))) (zip a b)"
    using assms(1,2) by (rule map_upt_nth2)
  finally show ?thesis by (simp add: emb3_def case_prod_beta comp_def)
qed

lemma bop_emb2:
  "length u = B \<Longrightarrow> length v = B \<Longrightarrow>
   bop f (emb2 u) (emb2 v) = Inr (emb2 (map (\<lambda>(x, y). f x y) (zip u v)))"
  by (simp del: bop_sh.simps add: bop_def broadcast_shapes_same bop_sh_emb2)

lemma bop_emb3:
  "length a = T \<Longrightarrow> length b = T \<Longrightarrow> \<forall>r\<in>set a. length r = B \<Longrightarrow> \<forall>r\<in>set b. length r = B \<Longrightarrow>
   bop f (emb3 B a) (emb3 B b) =
     Inr (emb3 B (map (\<lambda>(u, v). map (\<lambda>(x, y). f x y) (zip u v)) (zip a b)))"
  by (simp del: bop_sh.simps add: bop_def broadcast_shapes_same bop_sh_emb3)

lemma tmap_emb2: "tmap g (emb2 u) = emb2 (map g u)"
  by (simp add: emb2_def emb1_def)

lemma tmap_emb3: "tmap g (emb3 B a) = emb3 B (map (map g) a)"
  by (simp add: emb3_def tmap_emb2)

lemma index0_emb3: "t < length a \<Longrightarrow> index0 (emb3 B a) t = Inr (emb2 (a ! t))"
  by (simp add: emb3_def)

lemma next_values_emb3:
  "length bs = B \<Longrightarrow> slice_from1 (emb3 B vs) = Inr (emb3 B (tl vs)) \<and>
   cat0 (emb3 B (tl vs)) (unsqueeze0 (emb2 bs)) = Inr (emb3 B (tl vs @ [bs]))"
  by (simp add: emb3_def unsqueeze0_def drop_Suc map_tl)

lemma fn_emb2:
  assumes "length agg = B" "length c0 = B" "length c1 = B"
  shows "fn lam (emb2 agg) (emb2 c0) (emb2 c1) = Inr (emb2 (blend lam c0 c1 agg))"
proof -
  have 1: "bop (*) (tmap (\<lambda>x. x * lam) (emb2 c1)) (emb2 agg)
    = Inr (emb2 (map (\<lambda>(x, y). x * y) (zip (map (\<lambda>x. x * lam) c1) agg)))"
    unfolding tmap_emb2 using assms by (intro bop_emb2) simp_all
  have 2: "bop (+) (emb2 c0) (emb2 (map (\<lambda>(x, y). x * y) (zip (map (\<lambda>x. x * lam) c1) agg)))
    = Inr (emb2 (map (\<lambda>(x, y). x + y) (zip c0 (map (\<lambda>(x, y). x * y) (zip (map (\<lambda>x. x * lam) c1) agg)))))"
    using assms by (intro bop_emb2) simp_all
  have 3: "map (\<lambda>(x, y). x + y) (zip c0 (map (\<lambda>(x, y). x * y) (zip (map (\<lambda>x. x * lam) c1) agg)))
    = blend lam c0 c1 agg"
    unfolding blend_def using assms by (intro nth_equalityI) simp_all
  show ?thesis unfolding fn_def 1 using 2 3 by simp
qed

subsection \<open>The scan on tensors and the scan on lists\<close>

lemma length_blend:
  "length c0 = B \<Longrightarrow> length c1 = B \<Longrightarrow> length agg = B \<Longrightarrow> length (blend lam c0 c1 agg) = B"
  by (simp add: blend_def)

lemma nth_blend:
  "b < length c0 \<Longrightarrow> b < length c1 \<Longrightarrow> b < length agg \<Longrightarrow>
   blend lam c0 c1 agg ! b = c0 ! b + c1 ! b * lam * agg ! b"
  by (simp add: blend_def)

lemma emb2_outT: "length l = B \<Longrightarrow> emb2 l = outT B [l]"
proof -
  assume l: "length l = B"
  have "map emb1 l = map (\<lambda>b. emb1 (l ! b)) [0..<B]"
    using l by (intro nth_equalityI) simp_all
  then show ?thesis by (simp add: emb2_def outT_def emb1_def)
qed

lemma shape_outT: "shape (outT B acc) = [B, length acc]"
  by (simp add: outT_def)

lemma cat_last_outT:
  assumes "length l = B"
  shows "cat_last (outT B acc) (emb2 l) = Inr (outT B (acc @ [l]))"
proof -
  have "cat_last_sh [B, length acc] (Suc 0) (outT B acc) (emb2 l)
    = Tensor (map (\<lambda>i. cat_last_sh [length acc] (Suc 0) (sub (outT B acc) ! i) (sub (emb2 l) ! i))
               [0..<B]) [length acc + Suc 0]"
    by simp
  also have "map (\<lambda>i. cat_last_sh [length acc] (Suc 0) (sub (outT B acc) ! i) (sub (emb2 l) ! i))
               [0..<B]
     = map (\<lambda>b. Tensor (map (\<lambda>l. Scalar (l ! b)) (acc @ [l])) []) [0..<B]"
    using assms by (intro map_cong refl) (simp add: outT_def emb2_def emb1_def)
  finally have "cat_last_sh [B, length acc] (Suc 0) (outT B acc) (emb2 l) = outT B (acc @ [l])"
    by (simp add: outT_def)
  then show ?thesis using assms by (simp add: cat_last_def shape_outT del: cat_last_sh.simps)
qed

lemma scan_loop_emb:
  assumes "\<forall>t\<in>set ts. t < length ins \<and> t < length ps"
    and "\<forall>r\<in>set ins. length r = B" and "\<forall>r\<in>set ps. length r = B" and "length l = B"
  shows "scan_loop lam (emb3 B ins) (emb3 B ps) ts (emb2 l)
           (if acc = [] then None else Some (outT B acc))
         = Inr (emb2 (fst (scan_vecs lam ins ps ts l acc)),
                if snd (scan_vecs lam ins ps ts l acc) = [] then None
                else Some (outT B (snd (scan_vecs lam ins ps ts l acc))))"
  using assms(1,4)
proof (induction ts arbitrary: l acc)
  case Nil
  then show ?case by simp
next
  case (Cons t ts)
  from Cons.prems(1) have t: "t < length ins" "t < length ps"
    and rest: "\<forall>t\<in>set ts. t < length ins \<and> t < length ps" by simp_all
  from t assms(2,3) have li: "length (ins ! t) = B" and lp: "length (ps ! t) = B" by simp_all
  let ?l1 = "blend lam (ins ! t) (ps ! t) l"
  have l1: "length ?l1 = B" using li lp Cons.prems(2) by (rule length_blend)
  have f: "fn lam (emb2 l) (emb2 (ins ! t)) (emb2 (ps ! t)) = Inr (emb2 ?l1)"
    using Cons.prems(2) li lp by (rule fn_emb2)
  have ih: "scan_loop lam (emb3 B ins) (emb3 B ps) ts (emb2 ?l1) (Some (outT B (acc @ [?l1])))
         = Inr (emb2 (fst (scan_vecs lam ins ps ts ?l1 (acc @ [?l1]))),
                if snd (scan_vecs lam ins ps ts ?l1 (acc @ [?l1])) = [] then None
                else Some (outT B (snd (scan_vecs lam ins ps ts ?l1 (acc @ [?l1])))))"
    using Cons.IH[OF rest l1, of "acc @ [?l1]"] by simp
  show ?case
  proof (cases "acc = []")
    case True
    have "emb2 ?l1 = outT B (acc @ [?l1])" using True emb2_outT[OF l1] by simp
    with True t f ih show ?thesis by (simp add: index0_emb3)
  next
    case False
    with t f ih cat_last_outT[OF l1, of acc] show ?thesis by (simp add: index0_emb3)
  qed
qed

lemma nth_concat_uniform:
  "\<forall>r\<in>set rws. length r = n \<Longrightarrow> i < length rws \<Longrightarrow> j < n \<Longrightarrow>
   concat rws ! (i * n + j) = rws ! i ! j"
proof (induction rws arbitrary: i)
  case Nil
  then show ?case by simp
next
  case (Cons r rws)
  show ?case
  proof (cases i)
    case 0
    with Cons.prems show ?thesis by (simp add: nth_append)
  next
    case (Suc k)
    with Cons.prems have "concat rws ! (k * n + j) = rws ! k ! j"
      by (intro Cons.IH) simp_all
    moreover have "Suc k * n + j = length r + (k * n + j)" using Cons.prems(1) by simp
    ultimately show ?thesis using Suc by (simp add: nth_append del: mult_Suc)
  qed
qed

lemma flatten_outT:
  "i < B \<Longrightarrow> j < length acc \<Longrightarrow> flatten (outT B acc) ! (i * length acc + j) = acc ! j ! i"
proof -
  assume i: "i < B" and j: "j < length acc"
  have "flatten (outT B acc) = concat (map (\<lambda>b. map (\<lambda>l. l ! b) acc) [0..<B])"
    by (simp add: outT_def comp_def)
  moreover have "concat (map (\<lambda>b. map (\<lambda>l. l ! b) acc) [0..<B]) ! (i * length acc + j)
     = map (\<lambda>b. map (\<lambda>l. l ! b) acc) [0..<B] ! i ! j"
    using i j by (intro nth_concat_uniform) auto
  ultimately show ?thesis using i j by simp
qed

lemma reshape_flip_outT:
  assumes "acc \<noteq> []"
  shows "reshape_last1 (outT B acc) = Inr out \<Longrightarrow>
    sub (flip1 out) = map (\<lambda>b. emb2 (map (\<lambda>l. l ! b) (rev acc))) [0..<B]"
    and "\<exists>out. reshape_last1 (outT B acc) = Inr out"
proof -
  let ?n = "length acc"
  have r: "reshape_last1 (outT B acc) =
     Inr (Tensor (map (\<lambda>i. Tensor (map (\<lambda>j. Tensor [Scalar (flatten (outT B acc) ! (i * ?n + j))] [])
                                     [0..<?n]) [1]) [0..<B]) [?n, 1])"
    by (simp add: reshape_last1_def shape_outT)
  then show "\<exists>out. reshape_last1 (outT B acc) = Inr out" by blast
  assume "reshape_last1 (outT B acc) = Inr out"
  with r have out: "out = Tensor (map (\<lambda>i. Tensor (map (\<lambda>j. Tensor [Scalar (flatten (outT B acc) ! (i * ?n + j))] [])
                                     [0..<?n]) [1]) [0..<B]) [?n, 1]" by simp
  have "sub (flip1 out) = map (\<lambda>i. Tensor (rev (map (\<lambda>j. Tensor [Scalar (flatten (outT B acc) ! (i * ?n + j))] [])
                                     [0..<?n])) [1]) [0..<B]"
    unfolding out by (simp add: flip1_def comp_def)
  also have "\<dots> = map (\<lambda>b. emb2 (map (\<lambda>l. l ! b) (rev acc))) [0..<B]"
  proof (intro map_cong refl)
    fix i assume "i \<in> set [0..<B]"
    then have i: "i < B" by simp
    have "map (\<lambda>j. Tensor [Scalar (flatten (outT B acc) ! (i * ?n + j))] []) [0..<?n]
       = map (\<lambda>j. emb1 (acc ! j ! i)) [0..<?n]"
      using i by (intro map_cong refl) (simp add: flatten_outT emb1_def)
    also have "\<dots> = map (\<lambda>l. emb1 (l ! i)) acc"
      by (intro nth_equalityI) simp_all
    finally show "Tensor (rev (map (\<lambda>j. Tensor [Scalar (flatten (outT B acc) ! (i * ?n + j))] [])
                                     [0..<?n])) [1] = emb2 (map (\<lambda>l. l ! i) (rev acc))"
      by (simp add: emb2_def rev_map comp_def)
  qed
  finally show "sub (flip1 out) = map (\<lambda>b. emb2 (map (\<lambda>l. l ! b) (rev acc))) [0..<B]" .
qed

subsection \<open>The scan on lists and the returns of the specification\<close>

lemma scan_vecs_append:
  "scan_vecs lam ins ps (ts @ us) l acc =
   scan_vecs lam ins ps us (fst (scan_vecs lam ins ps ts l acc)) (snd (scan_vecs lam ins ps ts l acc))"
  by (induction ts arbitrary: l acc) simp_all

lemma scan_vecs_Suc:
  "scan_vecs lam (i0 # ins) (p0 # ps) (map Suc ts) l acc = scan_vecs lam ins ps ts l acc"
  by (induction ts arbitrary: l acc) simp_all

lemma scan_vecs_acc:
  "snd (scan_vecs lam ins ps ts l acc) = acc @ snd (scan_vecs lam ins ps ts l [])"
proof (induction ts arbitrary: l acc)
  case Nil
  then show ?case by simp
next
  case (Cons t ts)
  let ?l1 = "blend lam (ins ! t) (ps ! t) l"
  have "snd (scan_vecs lam ins ps ts ?l1 (acc @ [?l1])) = (acc @ [?l1]) @ snd (scan_vecs lam ins ps ts ?l1 [])"
    by (rule Cons.IH)
  moreover have "snd (scan_vecs lam ins ps ts ?l1 [?l1]) = [?l1] @ snd (scan_vecs lam ins ps ts ?l1 [])"
    by (rule Cons.IH)
  ultimately show ?case by simp
qed

lemma scan_vecs_fst:
  "fst (scan_vecs lam ins ps ts l acc) = last (l # snd (scan_vecs lam ins ps ts l []))"
proof (induction ts arbitrary: l acc)
  case Nil
  then show ?case by simp
next
  case (Cons t ts)
  let ?l1 = "blend lam (ins ! t) (ps ! t) l"
  have a: "fst (scan_vecs lam ins ps ts ?l1 (acc @ [?l1])) = last (?l1 # snd (scan_vecs lam ins ps ts ?l1 []))"
    by (rule Cons.IH)
  have b: "snd (scan_vecs lam ins ps ts ?l1 [?l1]) = [?l1] @ snd (scan_vecs lam ins ps ts ?l1 [])"
    by (rule scan_vecs_acc)
  show ?case using a b by simp
qed

lemma rev_upt_Suc: "rev [0..<Suc n] = map Suc (rev [0..<n]) @ [0]"
proof -
  have "[0..<Suc n] = 0 # map Suc [0..<n]" by (simp add: upt_conv_Cons map_Suc_upt del: upt_Suc)
  then show ?thesis by (simp add: rev_map del: upt_Suc)
qed

lemma returns_of_Nil: "returns_of lam [] ps bs = []"
  by (simp add: returns_of_def)

lemma returns_of_Cons:
  "returns_of lam (i0 # ins) (p0 # ps) bs =
   blend lam i0 p0 (case returns_of lam ins ps bs of [] \<Rightarrow> bs | x # _ \<Rightarrow> x) # returns_of lam ins ps bs"
proof -
  let ?ts = "rev [0..<length ins]"
  let ?acc = "snd (scan_vecs lam ins ps ?ts bs [])"
  let ?l = "fst (scan_vecs lam ins ps ?ts bs [])"
  have l: "?l = (case rev ?acc of [] \<Rightarrow> bs | x # _ \<Rightarrow> x)"
    unfolding scan_vecs_fst[of lam ins ps ?ts bs "[]"]
    by (cases ?acc rule: rev_cases) simp_all
  have "scan_vecs lam (i0 # ins) (p0 # ps) (rev [0..<length (i0 # ins)]) bs []
      = scan_vecs lam (i0 # ins) (p0 # ps) [0] ?l ?acc"
    by (simp add: rev_upt_Suc scan_vecs_append scan_vecs_Suc del: upt_Suc)
  then have "snd (scan_vecs lam (i0 # ins) (p0 # ps) (rev [0..<length (i0 # ins)]) bs [])
      = ?acc @ [blend lam i0 p0 ?l]" by simp
  then show ?thesis unfolding returns_of_def l by simp
qed

lemma returns_of_lengths:
  "length ps = length ins \<Longrightarrow> \<forall>r\<in>set ins. length r = B \<Longrightarrow> \<forall>r\<in>set ps. length r = B \<Longrightarrow>
   length bs = B \<Longrightarrow>
   length (returns_of lam ins ps bs) = length ins \<and> (\<forall>v\<in>set (returns_of lam ins ps bs). length v = B)"
proof (induction ps ins rule: list_induct2)
  case Nil
  then show ?case by (simp add: returns_of_Nil)
next
  case (Cons p ps i ins)
  then have ih: "length (returns_of lam ins ps bs) = length ins"
    "\<forall>v\<in>set (returns_of lam ins ps bs). length v = B" by simp_all
  have "length (case returns_of lam ins ps bs of [] \<Rightarrow> bs | x # _ \<Rightarrow> x) = B"
    using ih(2) Cons.prems(3) by (cases "returns_of lam ins ps bs") simp_all
  then have "length (blend lam i p (case returns_of lam ins ps bs of [] \<Rightarrow> bs | x # _ \<Rightarrow> x)) = B"
    using Cons.prems(1,2) by (intro length_blend) simp_all
  with ih show ?case by (simp add: returns_of_Cons)
qed

lemma col_returns_discounted:
  "length ps = length rs \<Longrightarrow> \<forall>r\<in>set rs. length r = B \<Longrightarrow> \<forall>r\<in>set ps. length r = B \<Longrightarrow>
   length bs = B \<Longrightarrow> b < B \<Longrightarrow>
   col b (returns_of 1 rs ps bs) = spec_monte_carlo (col b rs) (col b ps) (bs ! b)"
proof (induction ps rs rule: list_induct2)
  case Nil
  then show ?case by (simp add: returns_of_Nil col_def)
next
  case (Cons p ps r rs)
  let ?Rs = "returns_of 1 rs ps bs"
  let ?nxt = "case ?Rs of [] \<Rightarrow> bs | x # _ \<Rightarrow> x"
  from Cons have ih: "col b ?Rs = spec_monte_carlo (col b rs) (col b ps) (bs ! b)" by simp
  from returns_of_lengths[of ps rs B bs 1] Cons.hyps Cons.prems
  have len: "\<forall>v\<in>set ?Rs. length v = B" by simp
  have l0: "length ?nxt = B" using len Cons.prems(3) by (cases ?Rs) simp_all
  have r0: "?nxt ! b = (case spec_monte_carlo (col b rs) (col b ps) (bs ! b) of [] \<Rightarrow> bs ! b | x # _ \<Rightarrow> x)"
    unfolding ih[symmetric] by (cases ?Rs) (simp_all add: col_def)
  have "blend 1 r p ?nxt ! b = r ! b + p ! b * ?nxt ! b"
    using Cons.prems l0 by (simp add: nth_blend)
  with r0 ih show ?case by (simp add: returns_of_Cons col_def)
qed

lemma returns_of_zero:
  "length ps = length ins \<Longrightarrow> \<forall>r\<in>set ins. length r = B \<Longrightarrow> \<forall>r\<in>set ps. length r = B \<Longrightarrow>
   length bs = B \<Longrightarrow> returns_of 0 ins ps bs = ins"
proof (induction ps ins rule: list_induct2)
  case Nil
  then show ?case by (simp add: returns_of_Nil)
next
  case (Cons p ps i ins)
  let ?Rs = "returns_of 0 ins ps bs"
  let ?nxt = "case ?Rs of [] \<Rightarrow> bs | x # _ \<Rightarrow> x"
  from Cons have ih: "?Rs = ins" by simp
  have l0: "length ?nxt = B" using ih Cons.prems by (cases ins) simp_all
  have "blend 0 i p ?nxt = i"
    using Cons.prems l0 by (intro nth_equalityI) (simp_all add: blend_def)
  with ih show ?case by (simp add: returns_of_Cons)
qed

lemma rows_zip:
  assumes "\<forall>r\<in>set a. length r = B" "\<forall>r\<in>set b. length r = B"
  shows "\<forall>r\<in>set (map (\<lambda>(u, v). map (\<lambda>(x, y). f x y) (zip u v)) (zip a b)). length r = B"
proof
  fix r assume "r \<in> set (map (\<lambda>(u, v). map (\<lambda>(x, y). f x y) (zip u v)) (zip a b))"
  then obtain u v where uv: "(u, v) \<in> set (zip a b)" and r: "r = map (\<lambda>(x, y). f x y) (zip u v)"
    by auto
  from uv have "u \<in> set a" "v \<in> set b" by (auto dest: set_zip_leftD set_zip_rightD)
  with assms r show "length r = B" by simp
qed

lemma inputs_of_lengths:
  assumes "length vs = length rs" "length ps = length rs" "rs \<noteq> []"
    and "\<forall>r\<in>set rs. length r = B" "\<forall>r\<in>set vs. length r = B" "\<forall>r\<in>set ps. length r = B"
    and "length bs = B"
  shows "length (inputs_of lam rs vs ps bs) = length rs"
    and "\<forall>r\<in>set (inputs_of lam rs vs ps bs). length r = B"
proof -
  from assms(1,3) have vs: "vs \<noteq> []" by auto
  then have l: "length (tl vs @ [bs]) = length rs" using assms(1,3) by (cases vs) simp_all
  show "length (inputs_of lam rs vs ps bs) = length rs"
    using l assms(2) by (simp add: inputs_of_def)
  have nv: "\<forall>r\<in>set (tl vs @ [bs]). length r = B"
    using assms(5,7) vs by (auto dest: list.set_sel(2))
  from rows_zip[OF assms(6) nv]
  have "\<forall>r\<in>set (map (map (\<lambda>x. x * (1 - lam)))
      (map (\<lambda>(u, v). map (\<lambda>(x, y). x * y) (zip u v)) (zip ps (tl vs @ [bs])))). length r = B"
    by simp
  from rows_zip[OF assms(4) this]
  show "\<forall>r\<in>set (inputs_of lam rs vs ps bs). length r = B"
    unfolding inputs_of_def .
qed

lemma lambda_return_emb3:
  assumes "length vs = length rs" "length ps = length rs" "rs \<noteq> []"
    and "\<forall>r\<in>set rs. length r = B" "\<forall>r\<in>set vs. length r = B" "\<forall>r\<in>set ps. length r = B"
    and "length bs = B"
  shows "lambda_return (emb3 B rs) (emb3 B vs) (Values (emb3 B ps)) (Some (emb2 bs)) lam 0 =
    Inr (map (\<lambda>b. emb2 (col b (returns_of lam (inputs_of lam rs vs ps bs) ps bs))) [0..<B])"
proof -
  let ?ins = "inputs_of lam rs vs ps bs"
  let ?T = "length rs"
  from assms(1,3) have vs: "vs \<noteq> []" by auto
  then have l: "length (tl vs @ [bs]) = ?T" using assms(1,3) by (cases vs) simp_all
  have nv: "\<forall>r\<in>set (tl vs @ [bs]). length r = B"
    using assms(5,7) vs by (auto dest: list.set_sel(2))
  note il = inputs_of_lengths[OF assms, of lam]
  have 1: "bop (*) (emb3 B ps) (emb3 B (tl vs @ [bs])) =
      Inr (emb3 B (map (\<lambda>(u, v). map (\<lambda>(x, y). x * y) (zip u v)) (zip ps (tl vs @ [bs]))))"
    using assms(2) l assms(6) nv by (intro bop_emb3) simp_all
  let ?m = "map (map (\<lambda>x. x * (1 - lam)))
              (map (\<lambda>(u, v). map (\<lambda>(x, y). x * y) (zip u v)) (zip ps (tl vs @ [bs])))"
  have lm: "length ?m = ?T" using assms(2) l by simp
  have bm: "\<forall>r\<in>set ?m. length r = B" using rows_zip[OF assms(6) nv] by simp
  have 2: "bop (+) (emb3 B rs) (emb3 B ?m) = Inr (emb3 B ?ins)"
    unfolding inputs_of_def using lm assms(4) bm by (intro bop_emb3) simp_all
  have sl: "scan_loop lam (emb3 B ?ins) (emb3 B ps) (rev [0..<?T]) (emb2 bs) None
     = Inr (emb2 (fst (scan_vecs lam ?ins ps (rev [0..<?T]) bs [])),
            if snd (scan_vecs lam ?ins ps (rev [0..<?T]) bs []) = [] then None
            else Some (outT B (snd (scan_vecs lam ?ins ps (rev [0..<?T]) bs []))))"
  proof -
    have t: "\<forall>t\<in>set (rev [0..<?T]). t < length ?ins \<and> t < length ps"
      using il(1) assms(2) by simp
    from scan_loop_emb[OF t il(2) assms(6,7), of lam "[]"] show ?thesis by simp
  qed
  let ?acc = "snd (scan_vecs lam ?ins ps (rev [0..<?T]) bs [])"
  have racc: "rev ?acc = returns_of lam ?ins ps bs"
    using il(1) by (simp add: returns_of_def)
  from returns_of_lengths[of ps ?ins B bs lam] il assms(2,6,7)
  have "length (returns_of lam ?ins ps bs) = ?T" by simp
  with racc assms(3) have ne: "?acc \<noteq> []" by (metis length_0_conv rev.simps(1))
  from reshape_flip_outT[OF ne, of B] obtain out where
    o: "reshape_last1 (outT B ?acc) = Inr out"
    and f: "sub (flip1 out) = map (\<lambda>b. emb2 (map (\<lambda>l. l ! b) (rev ?acc))) [0..<B]"
    by blast
  have ss: "static_scan_for_lambda_return lam (emb3 B ?ins) (emb3 B ps) (emb2 bs) =
      Inr (map (\<lambda>b. emb2 (col b (returns_of lam ?ins ps bs))) [0..<B])"
    unfolding static_scan_for_lambda_return_def
    using sl ne o f racc il(1) by (simp add: col_def)
  show ?thesis
    unfolding lambda_return_def
    using next_values_emb3[OF assms(7), of vs] 1 2 ss assms(1)
    by (simp add: tmap_emb3)
qed

lemma length_col: "length (col b xs) = length xs"
  by (simp add: col_def)

lemma nth_col: "t < length xs \<Longrightarrow> col b xs ! t = xs ! t ! b"
  by (simp add: col_def)

lemma inputs_of_one:
  assumes "length vs = length rs" "length ps = length rs" "rs \<noteq> []"
    and "\<forall>r\<in>set rs. length r = B" "\<forall>r\<in>set vs. length r = B" "\<forall>r\<in>set ps. length r = B"
    and "length bs = B"
  shows "inputs_of 1 rs vs ps bs = rs"
proof (rule nth_equalityI)
  note il = inputs_of_lengths[OF assms, of 1]
  show "length (inputs_of 1 rs vs ps bs) = length rs" by (rule il(1))
  fix t assume "t < length (inputs_of 1 rs vs ps bs)"
  with il(1) have t: "t < length rs" by simp
  from assms(1,3) have vs: "vs \<noteq> []" by auto
  then have l: "length (tl vs @ [bs]) = length rs" using assms(1,3) by (cases vs) simp_all
  have nv: "\<forall>r\<in>set (tl vs @ [bs]). length r = B"
    using assms(5,7) vs by (auto dest: list.set_sel(2))
  have "(tl vs @ [bs]) ! t \<in> set (tl vs @ [bs])" using t l by (intro nth_mem) simp
  with nv have a3: "length ((tl vs @ [bs]) ! t) = B" by blast
  have a: "length (rs ! t) = B" "length (ps ! t) = B" "length ((tl vs @ [bs]) ! t) = B"
    using t assms(2,4,6) a3 by simp_all
  have "inputs_of 1 rs vs ps bs ! t =
      map (\<lambda>(x, y). x + y) (zip (rs ! t)
        (map (\<lambda>x. x * (1 - 1)) (map (\<lambda>(x, y). x * y) (zip (ps ! t) ((tl vs @ [bs]) ! t)))))"
    unfolding inputs_of_def using t assms(2) l by simp
  also have "\<dots> = rs ! t" using a by (intro nth_equalityI) simp_all
  finally show "inputs_of 1 rs vs ps bs ! t = rs ! t" .
qed

lemma col_inputs_of_zero:
  assumes "length vs = length rs" "length ps = length rs" "rs \<noteq> []"
    and "\<forall>r\<in>set rs. length r = B" "\<forall>r\<in>set vs. length r = B" "\<forall>r\<in>set ps. length r = B"
    and "length bs = B" and b: "b < B"
  shows "col b (inputs_of 0 rs vs ps bs) = spec_one_step (col b rs) (col b ps) (col b vs) (bs ! b)"
proof (rule nth_equalityI)
  note il = inputs_of_lengths[OF assms(1-7), of 0]
  from assms(1,3) have vs: "vs \<noteq> []" by auto
  then have l: "length (tl vs @ [bs]) = length rs" using assms(1,3) by (cases vs) simp_all
  have nv: "\<forall>r\<in>set (tl vs @ [bs]). length r = B"
    using assms(5,7) vs by (auto dest: list.set_sel(2))
  have cnv: "tl (col b vs) @ [bs ! b] = col b (tl vs @ [bs])"
    by (simp add: col_def map_tl)
  have lo: "length (spec_one_step (col b rs) (col b ps) (col b vs) (bs ! b)) = length rs"
    unfolding spec_one_step_def cnv using assms(2) l by (simp add: col_def)
  show "length (col b (inputs_of 0 rs vs ps bs)) =
      length (spec_one_step (col b rs) (col b ps) (col b vs) (bs ! b))"
    using il(1) lo by (simp add: col_def)
  fix t assume "t < length (col b (inputs_of 0 rs vs ps bs))"
  with il(1) have t: "t < length rs" by (simp add: col_def)
  have "(tl vs @ [bs]) ! t \<in> set (tl vs @ [bs])" using t l by (intro nth_mem) simp
  with nv have a3: "length ((tl vs @ [bs]) ! t) = B" by blast
  have a: "length (rs ! t) = B" "length (ps ! t) = B" "length ((tl vs @ [bs]) ! t) = B"
    using t assms(2,4,6) a3 by simp_all
  have "inputs_of 0 rs vs ps bs ! t =
      map (\<lambda>(x, y). x + y) (zip (rs ! t)
        (map (\<lambda>x. x * (1 - 0)) (map (\<lambda>(x, y). x * y) (zip (ps ! t) ((tl vs @ [bs]) ! t)))))"
    unfolding inputs_of_def using t assms(2) l by simp
  then have "col b (inputs_of 0 rs vs ps bs) ! t = rs ! t ! b + ps ! t ! b * (tl vs @ [bs]) ! t ! b"
    using t il(1) a b by (simp add: col_def)
  moreover have "spec_one_step (col b rs) (col b ps) (col b vs) (bs ! b) ! t =
      rs ! t ! b + ps ! t ! b * (tl vs @ [bs]) ! t ! b"
    unfolding spec_one_step_def cnv using t assms(2) l by (simp add: nth_col length_col)
  ultimately show "col b (inputs_of 0 rs vs ps bs) ! t =
      spec_one_step (col b rs) (col b ps) (col b vs) (bs ! b) ! t" by simp
qed

subsection \<open>The limits of \<^verbatim>\<open>lambda_return\<close>\<close>

text \<open>
  Claim C4, as the code has it. For a reward, a value and a discount of the shape
  \<open>[T, B, 1]\<close> with \<open>1 \<le> T\<close>, a bootstrap of the shape \<open>[B, 1]\<close> and \<^verbatim>\<open>axis = 0\<close>,
  \<^verbatim>\<open>lambda_return\<close> returns a tuple of \<open>B\<close> tensors of the shape \<open>[T, 1]\<close>, one for
  each batch index. With \<^verbatim>\<open>lambda_ = 1\<close> the tensor of the batch index \<open>b\<close> holds the
  discounted Monte-Carlo return of the sequences of \<open>b\<close>,
  \<open>R[t] = reward[t] + discount[t] * R[t+1]\<close> with the bootstrap after the last step; with
  \<^verbatim>\<open>lambda_ = 0\<close> it holds the one-step target
  \<open>reward[t] + discount[t] * next_value[t]\<close>.
\<close>

theorem lambda_return_limits:
  assumes "rs \<noteq> []" and "length vs = length rs" and "length ps = length rs"
    and "\<forall>r\<in>set rs. length r = B" and "\<forall>r\<in>set vs. length r = B" and "\<forall>r\<in>set ps. length r = B"
    and "length bs = B"
  shows "lambda_return (emb3 B rs) (emb3 B vs) (Values (emb3 B ps)) (Some (emb2 bs)) 1 0 =
      Inr (map (\<lambda>b. emb2 (spec_monte_carlo (col b rs) (col b ps) (bs ! b))) [0..<B]) \<and>
    lambda_return (emb3 B rs) (emb3 B vs) (Values (emb3 B ps)) (Some (emb2 bs)) 0 0 =
      Inr (map (\<lambda>b. emb2 (spec_one_step (col b rs) (col b ps) (col b vs) (bs ! b))) [0..<B])"
proof
  note a = assms(2,3,1,4-7)
  have "map (\<lambda>b. emb2 (col b (returns_of 1 (inputs_of 1 rs vs ps bs) ps bs))) [0..<B] =
      map (\<lambda>b. emb2 (spec_monte_carlo (col b rs) (col b ps) (bs ! b))) [0..<B]"
    unfolding inputs_of_one[OF a]
    using col_returns_discounted[OF assms(3,4,6,7)] by simp
  with lambda_return_emb3[OF a, of 1]
  show "lambda_return (emb3 B rs) (emb3 B vs) (Values (emb3 B ps)) (Some (emb2 bs)) 1 0 =
      Inr (map (\<lambda>b. emb2 (spec_monte_carlo (col b rs) (col b ps) (bs ! b))) [0..<B])" by simp
  note il = inputs_of_lengths[OF a, of 0]
  from returns_of_zero[of ps "inputs_of 0 rs vs ps bs" B bs] il assms(3,6,7)
  have z: "returns_of 0 (inputs_of 0 rs vs ps bs) ps bs = inputs_of 0 rs vs ps bs" by simp
  have "map (\<lambda>b. emb2 (col b (returns_of 0 (inputs_of 0 rs vs ps bs) ps bs))) [0..<B] =
      map (\<lambda>b. emb2 (spec_one_step (col b rs) (col b ps) (col b vs) (bs ! b))) [0..<B]"
    unfolding z using col_inputs_of_zero[OF a] by simp
  with lambda_return_emb3[OF a, of 0]
  show "lambda_return (emb3 B rs) (emb3 B vs) (Values (emb3 B ps)) (Some (emb2 bs)) 0 0 =
      Inr (map (\<lambda>b. emb2 (spec_one_step (col b rs) (col b ps) (col b vs) (bs ! b))) [0..<B])" by simp
qed

lemmas tensor_defs = lambda_return_def static_scan_for_lambda_return_def fn_def bop_def
  broadcast_shapes_def sel_def the_scalar_def cat_last_def reshape_last1_def flip1_def
  unsqueeze0_def emb1_def emb2_def emb3_def vec_def Let_def

theorem lambda_return_limits_witness:
  "lambda_return (emb3 2 [[1, 2], [3, 4], [5, 6]]) (emb3 2 [[10, 20], [30, 40], [50, 60]])
     (Values (emb3 2 [[1 / 2, 1 / 2], [1 / 2, 1 / 2], [1 / 2, 1 / 2]])) (Some (emb2 [100, 200])) 1 0 =
     Inr [emb2 [65 / 4, 61 / 2, 55], emb2 [61 / 2, 57, 106]] \<and>
   lambda_return (emb3 2 [[1, 2], [3, 4], [5, 6]]) (emb3 2 [[10, 20], [30, 40], [50, 60]])
     (Values (emb3 2 [[1 / 2, 1 / 2], [1 / 2, 1 / 2], [1 / 2, 1 / 2]])) (Some (emb2 [100, 200])) 0 0 =
     Inr [emb2 [16, 28, 55], emb2 [22, 34, 106]]"
  using lambda_return_limits[of "[[1, 2], [3, 4], [5, 6]]" "[[10, 20], [30, 40], [50, 60]]"
      "[[1 / 2, 1 / 2], [1 / 2, 1 / 2], [1 / 2, 1 / 2]]" 2 "[100, 200]"]
  by (simp add: col_def spec_one_step_def numeral_2_eq_2)

text \<open>
  The claim as the specification states it fails on sequences with one dimension: a
  reward, a value and a discount of the shape \<open>[2]\<close> have equal shapes, the discounted
  return of the specification is \<open>[3, 2]\<close>, and \<^verbatim>\<open>lambda_return\<close> raises, since
  \<^verbatim>\<open>torch.cat\<close> does not join tensors with no dimension.
\<close>

theorem lambda_return_sequences:
  "shape (vec [1, 2]) = shape (vec [0, 0]) \<and> shape (vec [1, 2]) = shape (vec [1, 1]) \<and>
   spec_monte_carlo [1, 2] [1, 1] 0 = [3, 2] \<and>
   lambda_return (vec [1, 2]) (vec [0, 0]) (Values (vec [1, 1])) (Some (Scalar 0)) 1 0 =
     Inl RuntimeError"
  by (simp add: tensor_defs numeral_2_eq_2)

lemma index_last_error: "index_last t = Inl e \<Longrightarrow> e = IndexError"
  by (cases t) (auto split: if_splits)

lemma slice_from1_error: "slice_from1 t = Inl e \<Longrightarrow> e = IndexError"
  by (cases t) auto

lemma cat0_error: "cat0 a b = Inl e \<Longrightarrow> e = RuntimeError"
  by (cases a; cases b) (auto split: if_splits)

lemma bop_error: "bop f a b = Inl e \<Longrightarrow> e = RuntimeError"
  by (auto simp: bop_def split: option.splits)

lemma cat_last_error: "cat_last a b = Inl e \<Longrightarrow> e = RuntimeError"
  by (auto simp: cat_last_def split: if_splits)

lemma reshape_last1_error: "reshape_last1 t = Inl e \<Longrightarrow> e = RuntimeError \<or> e = IndexError"
  by (auto simp: reshape_last1_def split: list.splits if_splits)

lemma index0_error: "index0 t i = Inl e \<Longrightarrow> e = IndexError"
  by (cases t) (auto split: if_splits)

lemma fn_error: "fn lam agg cur0 cur1 = Inl e \<Longrightarrow> e = RuntimeError"
  by (auto simp: fn_def split: sum.splits dest: bop_error)

lemma scan_loop_error:
  "scan_loop lam inputs pcont ts l out = Inl e \<Longrightarrow> e = RuntimeError \<or> e = IndexError"
proof (induction ts arbitrary: l out)
  case Nil
  then show ?case by simp
next
  case (Cons t ts)
  then show ?case
    by (auto split: sum.splits option.splits
        dest: index0_error fn_error cat_last_error)
qed

lemma static_scan_error:
  "static_scan_for_lambda_return lam inputs pcont start = Inl e \<Longrightarrow> e \<noteq> AssertionError"
  by (auto simp: static_scan_for_lambda_return_def
      split: list.splits sum.splits option.splits prod.splits
      dest: scan_loop_error reshape_last1_error)

subsection \<open>The assertion of \<^verbatim>\<open>lambda_return\<close>\<close>

text \<open>
  Claim C10, as the code has it. The assertion compares the numbers of dimensions of
  \<^verbatim>\<open>reward\<close> and \<^verbatim>\<open>value\<close>, not their shapes: \<^verbatim>\<open>lambda_return\<close> raises
  \<^verbatim>\<open>AssertionError\<close> exactly when the two numbers of dimensions differ. So inputs of
  equal shapes never fail the assertion, and no other step raises this exception.
\<close>

theorem lambda_return_assertion:
  "lambda_return reward value pcont bootstrap lam axis = Inl AssertionError \<longleftrightarrow>
   length (shape reward) \<noteq> length (shape value)"
proof (cases "length (shape reward) = length (shape value)")
  case False
  then show ?thesis by (simp add: lambda_return_def)
next
  case True
  have "lambda_return reward value pcont bootstrap lam axis \<noteq> Inl AssertionError"
  proof
    assume a: "lambda_return reward value pcont bootstrap lam axis = Inl AssertionError"
    show False
    proof (cases "axis = 0")
      case False
      with a True show False by (simp add: lambda_return_def Let_def)
    next
      case ax: True
      from a True ax show False
        unfolding lambda_return_def Let_def
        by (auto split: sum.splits option.splits
            dest: index_last_error slice_from1_error cat0_error bop_error static_scan_error)
    qed
  qed
  with True show ?thesis by simp
qed

text \<open>
  The claim as the specification states it fails: a reward of the shape \<open>[1, 2, 1]\<close> and a
  value of the shape \<open>[1, 1, 1]\<close> differ in the second dimension, and the function returns
  values, which broadcasting computes.
\<close>

theorem lambda_return_rank_only:
  "shape (emb3 2 [[1, 2]]) = [1, 2, 1] \<and> shape (emb3 1 [[5]]) = [1, 1, 1] \<and>
   lambda_return (emb3 2 [[1, 2]]) (emb3 1 [[5]]) (Values (emb3 2 [[1, 1]])) (Some (emb2 [7]))
     (1 / 2) 0 = Inr [Tensor [Tensor [Scalar 8] []] [1], Tensor [Tensor [Scalar 9] []] [1]]"
  by (simp add: tensor_defs numeral_2_eq_2)

section \<open>The simulation driver: proofs\<close>

subsection \<open>The state that \<^verbatim>\<open>simulate_multi\<close> returns\<close>

text \<open>
  Claim C7 fails on the code. The loop keeps \<^verbatim>\<open>length\<close> as an array with one entry
  for each slot (\<^verbatim>\<open>length += 1\<close>, \<^verbatim>\<open>length *= 1 - done\<close>), but the logging code of
  a finished episode assigns the length of that episode to the same variable. With two
  slots and one pass in which slot 0 finishes, the call returns the number 1 where the
  array \<open>[0, 1]\<close> is due. With one pass more, in which no slot finishes, the next
  \<^verbatim>\<open>length *= 1 - done\<close> makes an array of the number: the call returns \<open>[2, 2]\<close>,
  while the episodes in flight have the lengths 1 and 2.
\<close>

theorem simulate_multi_length:
  "returned_length (simulate_multi refuse [answers 2 {0}] [slot 0, slot 1] [] False None 2 0 None)
     = Some (LengthNumber 1) \<and>
   returned_length (simulate_multi refuse [answers 2 {0}, answers 2 {}] [slot 0, slot 1] []
                      False None 4 0 None)
     = Some (LengthArray [2, 2])"
  by code_simp

subsection \<open>The curriculum controller\<close>

lemma increase_difficulty_advanced:
  assumes "episode_length e < max_length e"
  shows "\<exists>e'. increase_difficulty coords_check counter nel e =
           Inr (e', Some (min (episode_length e + 75) (max_length e))) \<and>
         advanced coords_check counter e e'"
  using assms by (auto simp: increase_difficulty_def advanced_def Let_def)

lemma increase_all_advanced:
  assumes "\<forall>e\<in>set envs. episode_length e < max_length e"
  shows "\<exists>envs' nel'. increase_all coords_check counter nel envs = Inr (envs', nel') \<and>
           list_all2 (advanced coords_check counter) envs envs'"
  using assms
proof (induction envs arbitrary: nel)
  case Nil
  then show ?case by simp
next
  case (Cons e envs)
  from Cons.prems have "episode_length e < max_length e" by simp
  from increase_difficulty_advanced[OF this, of coords_check counter nel] obtain e' where
    e': "increase_difficulty coords_check counter nel e =
           Inr (e', Some (min (episode_length e + 75) (max_length e)))"
    and a: "advanced coords_check counter e e'" by blast
  from Cons.prems have "\<forall>e\<in>set envs. episode_length e < max_length e" by simp
  from Cons.IH[OF this, of "Some (min (episode_length e + 75) (max_length e))"]
  obtain envs' nel' where
    r: "increase_all coords_check counter (Some (min (episode_length e + 75) (max_length e))) envs
          = Inr (envs', nel')"
    and l: "list_all2 (advanced coords_check counter) envs envs'" by blast
  from e' r have "increase_all coords_check counter nel (e # envs) = Inr (e' # envs', nel')"
    by simp
  with a l show ?case by auto
qed

text \<open>
  Claim C8, as the code has it. In one pass the controller adds the rewards of the pass to
  \<^verbatim>\<open>total_reward\<close>, computes the average with the counter as it was before the pass
  (0 when that counter is 0), and then adds the episodes that the pass completed to the
  counter. The update fires exactly when the new counter is at least 5 and that average
  exceeds 6. For environments whose episode length is below its cap, the update returns,
  makes of every environment what \<open>advanced\<close> says, and resets the two accumulators to
  zero; when it does not fire, the environments stay as they are.
\<close>

theorem controller_update:
  assumes "\<forall>e\<in>set envs. episode_length e < max_length e"
  shows "(let t = total' + sum_list reward; c = counter + int (length (filter id flags))
          in if 5 \<le> c \<and> counter \<noteq> 0 \<and> 6 < t / real_of_int counter
             then \<exists>envs' nel'.
                    controller coords_check envs total' counter nel reward flags =
                      Inr (envs', 0, 0, nel') \<and>
                    list_all2 (advanced coords_check c) envs envs'
             else controller coords_check envs total' counter nel reward flags =
                    Inr (envs, t, c, nel))"
proof -
  let ?t = "total' + sum_list reward"
  let ?c = "counter + int (length (filter id flags))"
  show ?thesis
  proof (cases "5 \<le> ?c \<and> counter \<noteq> 0 \<and> 6 < ?t / real_of_int counter")
    case True
    from increase_all_advanced[OF assms, of coords_check ?c nel] obtain envs' nel' where
      r: "increase_all coords_check ?c nel envs = Inr (envs', nel')"
      and l: "list_all2 (advanced coords_check ?c) envs envs'" by blast
    from True r have "controller coords_check envs total' counter nel reward flags =
        Inr (envs', 0, 0, nel')"
      by (simp add: controller_def Let_def)
    with l True show ?thesis by (auto simp: Let_def)
  next
    case False
    then have "controller coords_check envs total' counter nel reward flags =
        Inr (envs, ?t, ?c, nel)"
      by (auto simp: controller_def Let_def)
    with False show ?thesis by (simp add: Let_def)
  qed
qed

theorem controller_update_witness:
  "list_all (\<lambda>e. episode_length e < max_length e) [slot 0, slot 1] \<and>
   (\<exists>envs' nel'. controller accept [slot 0, slot 1] 40 5 None [1, 1] [True, False] =
                    Inr (envs', 0, 0, nel') \<and>
                  list_all2 (advanced accept 6) [slot 0, slot 1] envs') \<and>
   controller accept [slot 0, slot 1] 20 5 None [1, 1] [True, False] =
     Inr ([slot 0, slot 1], 22, 6, None)"
proof -
  have h: "\<forall>e\<in>set [slot 0, slot 1]. episode_length e < max_length e"
    by (simp add: slot_def)
  from controller_update[OF h, of 40 "[1, 1]" 5 "[True, False]" accept None]
  have a: "\<exists>envs' nel'. controller accept [slot 0, slot 1] 40 5 None [1, 1] [True, False] =
                    Inr (envs', 0, 0, nel') \<and>
                  list_all2 (advanced accept 6) [slot 0, slot 1] envs'"
    by (simp add: Let_def)
  from controller_update[OF h, of 20 "[1, 1]" 5 "[True, False]" accept None]
  have b: "controller accept [slot 0, slot 1] 20 5 None [1, 1] [True, False] =
     Inr ([slot 0, slot 1], 22, 6, None)"
    by (simp add: Let_def)
  from h a b show ?thesis unfolding list_all_iff by blast
qed

text \<open>
  The claim as the specification states it fails. With the counter at 4, the total at 27
  and one finished episode with the reward 1, the counter reaches 5 and the total divided
  by the counter is 5.6, but the update fires, since the average was taken with the
  counter 4. When the check accepts, the size of the map grows by 5, not by its increment
  2. With the counter at 0 and five slots that each finish with the reward 10, the counter
  reaches 5 and the total divided by the counter is 10, but no update fires, since the
  average is 0 when the counter was 0.
\<close>

theorem controller_stale_average:
  "controller refuse [slot 0] 27 4 None [1] [True] =
     Inr ([(slot 0)\<lparr>size_of_map := 12, num_obstacles := 3, min_dist_between_objs := 3 / 2,
                     episode_length := 175\<rparr>], 0, 0, Some 175) \<and>
   4 + int (length (filter id [True])) = 5 \<and> \<not> 6 < (27 + sum_list [1 :: real]) / 5 \<and>
   controller accept [slot 0] 27 4 None [1] [True] =
     Inr ([(slot 0)\<lparr>size_of_map := 15, num_obstacles := 3, min_dist_between_objs := 3 / 2,
                     episode_length := 175\<rparr>], 0, 0, Some 175) \<and>
   controller refuse [slot 0, slot 1, slot 2, slot 3, slot 4] 0 0 None [10, 10, 10, 10, 10]
     [True, True, True, True, True] =
     Inr ([slot 0, slot 1, slot 2, slot 3, slot 4], 50, 5, None) \<and>
   6 < sum_list [10, 10, 10, 10, 10 :: real] / 5"
  by (simp add: controller_def increase_difficulty_def slot_def refuse_def accept_def Let_def)

end
